theory Spec2Isabelle
  imports Main "HOL-Library.Sublist"
begin

section \<open>Tokens (lex.py)\<close>

text \<open>
  The enumeration \<open>TokenType\<close> of lex.py, in declaration order, with the name and the
  numeric value of every member. Keywords are the members whose value lies in
  \<open>[100, 200)\<close>.
\<close>

datatype TokenType =
    EOF | NEWLINE | NUMBER | IDENT | STRING
  | LABEL | GOTO | PRINT | INPUT | LET | IF | THEN | ENDIF | WHILE | REPEAT | ENDWHILE
  | EQ | PLUS | MINUS | ASTERISK | SLASH | EQEQ | NOTEQ | LT | LTEQ | GT | GTEQ

fun kind_name :: "TokenType \<Rightarrow> string" where
  "kind_name EOF = ''EOF''"
| "kind_name NEWLINE = ''NEWLINE''"
| "kind_name NUMBER = ''NUMBER''"
| "kind_name IDENT = ''IDENT''"
| "kind_name STRING = ''STRING''"
| "kind_name LABEL = ''LABEL''"
| "kind_name GOTO = ''GOTO''"
| "kind_name PRINT = ''PRINT''"
| "kind_name INPUT = ''INPUT''"
| "kind_name LET = ''LET''"
| "kind_name IF = ''IF''"
| "kind_name THEN = ''THEN''"
| "kind_name ENDIF = ''ENDIF''"
| "kind_name WHILE = ''WHILE''"
| "kind_name REPEAT = ''REPEAT''"
| "kind_name ENDWHILE = ''ENDWHILE''"
| "kind_name EQ = ''EQ''"
| "kind_name PLUS = ''PLUS''"
| "kind_name MINUS = ''MINUS''"
| "kind_name ASTERISK = ''ASTERISK''"
| "kind_name SLASH = ''SLASH''"
| "kind_name EQEQ = ''EQEQ''"
| "kind_name NOTEQ = ''NOTEQ''"
| "kind_name LT = ''LT''"
| "kind_name LTEQ = ''LTEQ''"
| "kind_name GT = ''GT''"
| "kind_name GTEQ = ''GTEQ''"

fun kind_value :: "TokenType \<Rightarrow> int" where
  "kind_value EOF = -1"
| "kind_value NEWLINE = 0"
| "kind_value NUMBER = 1"
| "kind_value IDENT = 2"
| "kind_value STRING = 3"
| "kind_value LABEL = 101"
| "kind_value GOTO = 102"
| "kind_value PRINT = 103"
| "kind_value INPUT = 104"
| "kind_value LET = 105"
| "kind_value IF = 106"
| "kind_value THEN = 107"
| "kind_value ENDIF = 108"
| "kind_value WHILE = 109"
| "kind_value REPEAT = 110"
| "kind_value ENDWHILE = 111"
| "kind_value EQ = 201"
| "kind_value PLUS = 202"
| "kind_value MINUS = 203"
| "kind_value ASTERISK = 204"
| "kind_value SLASH = 205"
| "kind_value EQEQ = 206"
| "kind_value NOTEQ = 207"
| "kind_value LT = 208"
| "kind_value LTEQ = 209"
| "kind_value GT = 210"
| "kind_value GTEQ = 211"

definition TokenType_members :: "TokenType list" where
  "TokenType_members =
     [EOF, NEWLINE, NUMBER, IDENT, STRING,
      LABEL, GOTO, PRINT, INPUT, LET, IF, THEN, ENDIF, WHILE, REPEAT, ENDWHILE,
      EQ, PLUS, MINUS, ASTERISK, SLASH, EQEQ, NOTEQ, LT, LTEQ, GT, GTEQ]"

text \<open>Class \<open>Token\<close>: the spelling (\<open>self.text\<close>) and the kind (\<open>self.kind\<close>).\<close>

datatype token = Token (tokenText: string) (tokenKind: TokenType)

text \<open>\<open>Token.checkIfKeyword\<close>: the first member, in declaration order, whose name is the
  text and whose value is a keyword value; \<open>None\<close> when there is none.\<close>

definition checkIfKeyword :: "string \<Rightarrow> TokenType option" where
  "checkIfKeyword tokText =
     find (\<lambda>kind. kind_name kind = tokText \<and> kind_value kind \<ge> 100 \<and> kind_value kind < 200)
       TokenType_members"

section \<open>Outcomes of a run\<close>

text \<open>
  Both \<open>abort\<close> methods end the process with \<open>sys.exit\<close>. \<open>LexerAbort m\<close> is
  \<open>Lexer.abort(m)\<close> (exit message \<open>"Lexing Error. " + m\<close>) and \<open>ParserAbort m\<close> is
  \<open>Parser.abort(m)\<close> (exit message \<open>"Error. " + m\<close>). A call either aborts, returns,
  or (for a scan loop that never meets its exit condition) does not return.
\<close>

datatype abort = LexerAbort string | ParserAbort string

fun exit_message :: "abort \<Rightarrow> string" where
  "exit_message (LexerAbort m) = ''Lexing Error. '' @ m"
| "exit_message (ParserAbort m) = ''Error. '' @ m"

datatype 'a result = Diverges | Aborts abort | Returns 'a

fun rbind :: "'a result \<Rightarrow> ('a \<Rightarrow> 'b result) \<Rightarrow> 'b result" where
  "rbind Diverges f = Diverges"
| "rbind (Aborts e) f = Aborts e"
| "rbind (Returns x) f = f x"

section \<open>The lexer (lex.py)\<close>

text \<open>
  Characters are the code points 0 to 255 (a source text with a code point above 255 is
  outside the model). The character classes are those of Python's \<open>str.isdigit\<close>,
  \<open>str.isalpha\<close> and \<open>str.isalnum\<close> on that range: besides the ASCII digits,
  \<open>isdigit\<close> holds of the superscripts U+00B2, U+00B3 and U+00B9; besides the ASCII
  letters, \<open>isalpha\<close> holds of U+00AA, U+00B5, U+00BA and of U+00C0 to U+00FF except
  U+00D7 and U+00F7; and \<open>isalnum\<close> holds of the letters, of the digits and of the
  fractions U+00BC to U+00BE. \<open>NUL\<close> is the character \<open>'\0'\<close> that the lexer uses as
  its end-of-file marker.
\<close>

abbreviation NUL :: char where "NUL \<equiv> CHR 0x00"
abbreviation TAB :: char where "TAB \<equiv> CHR 0x09"
abbreviation LF :: char where "LF \<equiv> CHR 0x0A"
abbreviation CR :: char where "CR \<equiv> CHR 0x0D"
abbreviation DQUOTE :: char where "DQUOTE \<equiv> CHR 0x22"
abbreviation BACKSLASH :: char where "BACKSLASH \<equiv> CHR 0x5C"

definition superscript_digits :: "char list" where
  "superscript_digits = [CHR 0xB2, CHR 0xB3, CHR 0xB9]"

definition latin1_letters :: "char list" where
  "latin1_letters =
     [CHR 0xAA, CHR 0xB5, CHR 0xBA, CHR 0xC0, CHR 0xC1, CHR 0xC2, CHR 0xC3, CHR 0xC4,
      CHR 0xC5, CHR 0xC6, CHR 0xC7, CHR 0xC8, CHR 0xC9, CHR 0xCA, CHR 0xCB, CHR 0xCC,
      CHR 0xCD, CHR 0xCE, CHR 0xCF, CHR 0xD0, CHR 0xD1, CHR 0xD2, CHR 0xD3, CHR 0xD4,
      CHR 0xD5, CHR 0xD6, CHR 0xD8, CHR 0xD9, CHR 0xDA, CHR 0xDB, CHR 0xDC, CHR 0xDD,
      CHR 0xDE, CHR 0xDF, CHR 0xE0, CHR 0xE1, CHR 0xE2, CHR 0xE3, CHR 0xE4, CHR 0xE5,
      CHR 0xE6, CHR 0xE7, CHR 0xE8, CHR 0xE9, CHR 0xEA, CHR 0xEB, CHR 0xEC, CHR 0xED,
      CHR 0xEE, CHR 0xEF, CHR 0xF0, CHR 0xF1, CHR 0xF2, CHR 0xF3, CHR 0xF4, CHR 0xF5,
      CHR 0xF6, CHR 0xF8, CHR 0xF9, CHR 0xFA, CHR 0xFB, CHR 0xFC, CHR 0xFD, CHR 0xFE,
      CHR 0xFF]"

definition vulgar_fractions :: "char list" where
  "vulgar_fractions = [CHR 0xBC, CHR 0xBD, CHR 0xBE]"

definition isdigit :: "char \<Rightarrow> bool" where
  "isdigit c = (c \<in> set ''0123456789'' \<or> c \<in> set superscript_digits)"

definition isalpha :: "char \<Rightarrow> bool" where
  "isalpha c =
     (c \<in> set ''abcdefghijklmnopqrstuvwxyzABCDEFGHIJKLMNOPQRSTUVWXYZ''
      \<or> c \<in> set latin1_letters)"

definition isalnum :: "char \<Rightarrow> bool" where
  "isalnum c = (isalpha c \<or> isdigit c \<or> c \<in> set vulgar_fractions)"

lemma not_class_NUL [simp]: "\<not> isdigit NUL" "\<not> isalpha NUL" "\<not> isalnum NUL"
  by (simp_all add: isalnum_def isalpha_def isdigit_def superscript_digits_def
        latin1_letters_def vulgar_fractions_def)

lemma isdigit_not_NUL: "isdigit c \<Longrightarrow> c \<noteq> NUL"
  by auto

lemma isalpha_not_NUL: "isalpha c \<Longrightarrow> c \<noteq> NUL"
  by auto

lemma isalnum_not_NUL: "isalnum c \<Longrightarrow> c \<noteq> NUL"
  by auto

text \<open>Python's slice \<open>s[i:j]\<close> for non-negative \<open>i\<close> and \<open>j\<close> (it clips at the end of
  \<open>s\<close> and is empty when \<open>j \<le> i\<close>).\<close>

definition slice :: "'a list \<Rightarrow> nat \<Rightarrow> nat \<Rightarrow> 'a list" where
  "slice s i j = take (j - i) (drop i s)"

text \<open>
  The state of a \<open>Lexer\<close> object. \<open>curPos\<close> is a natural number: the constructor sets
  it to \<open>-1\<close> and calls \<open>nextChar\<close> at once, so that every state a caller can see has
  \<open>curPos \<ge> 0\<close>; \<open>Lexer\<close> below builds that first visible state.
\<close>

record lexer =
  source :: string
  curChar :: char
  curPos :: nat

definition nextChar :: "lexer \<Rightarrow> lexer" where
  "nextChar L =
     (let pos = curPos L + 1 in
      L\<lparr>curPos := pos,
        curChar := (if pos \<ge> length (source L) then NUL else source L ! pos)\<rparr>)"

definition Lexer :: "string \<Rightarrow> lexer" where
  "Lexer src =
     (let s = src @ [LF] in
      \<lparr>source = s, curChar = (if 0 \<ge> length s then NUL else s ! 0), curPos = 0\<rparr>)"

definition peek :: "lexer \<Rightarrow> char" where
  "peek L = (if curPos L + 1 \<ge> length (source L) then NUL else source L ! (curPos L + 1))"

definition is_space :: "char \<Rightarrow> bool" where
  "is_space c = (c = CHR '' '' \<or> c = TAB \<or> c = CR)"

function skipWhitespace :: "lexer \<Rightarrow> lexer" where
  "skipWhitespace L = (if is_space (curChar L) then skipWhitespace (nextChar L) else L)"
  by pat_completeness auto
termination
  by (relation "measure (\<lambda>L. (if is_space (curChar L) then 1 else 0)
                        + (length (source L) - Suc (curPos L)))")
     (auto simp: nextChar_def Let_def is_space_def)

declare skipWhitespace.simps [simp del]

text \<open>The loop of \<open>skipComment\<close>: it runs until the current character is a line feed, and
  so does not return when there is none ahead.\<close>

partial_function (option) skipComment_loop :: "lexer \<Rightarrow> lexer option" where
  [code]: "skipComment_loop L =
     (if curChar L \<noteq> LF then skipComment_loop (nextChar L) else Some L)"

definition skipComment :: "lexer \<Rightarrow> lexer option" where
  "skipComment L = (if curChar L = CHR ''#'' then skipComment_loop L else Some L)"

text \<open>The loop that scans the body of a string literal, up to the closing quote.\<close>

definition illegal_in_string :: "char \<Rightarrow> bool" where
  "illegal_in_string c = (c = CR \<or> c = LF \<or> c = TAB \<or> c = CHR ''%'' \<or> c = BACKSLASH)"

partial_function (option) string_loop :: "lexer \<Rightarrow> (abort + lexer) option" where
  [code]: "string_loop L =
     (if curChar L \<noteq> DQUOTE then
        (if illegal_in_string (curChar L)
         then Some (Inl (LexerAbort ''Illegal character in string.''))
         else string_loop (nextChar L))
      else Some (Inr L))"

text \<open>The loops \<open>while self.peek().isdigit(): self.nextChar()\<close> and
  \<open>while self.peek().isalnum(): self.nextChar()\<close>.\<close>

function digits_loop :: "lexer \<Rightarrow> lexer" where
  "digits_loop L = (if isdigit (peek L) then digits_loop (nextChar L) else L)"
  by pat_completeness auto
termination
  by (relation "measure (\<lambda>L. length (source L) - curPos L)")
     (auto simp: nextChar_def Let_def peek_def split: if_splits)

declare digits_loop.simps [simp del]

function alnum_loop :: "lexer \<Rightarrow> lexer" where
  "alnum_loop L = (if isalnum (peek L) then alnum_loop (nextChar L) else L)"
  by pat_completeness auto
termination
  by (relation "measure (\<lambda>L. length (source L) - curPos L)")
     (auto simp: nextChar_def Let_def peek_def split: if_splits)

declare alnum_loop.simps [simp del]

text \<open>
  The \<open>if\<close>/\<open>elif\<close> chain of \<open>getToken\<close>: the token that starts at the current
  character, with the lexer left on the last character of the token.
\<close>

definition two_char :: "lexer \<Rightarrow> TokenType \<Rightarrow> (token \<times> lexer) result" where
  "two_char L kind =
     (let lastChar = curChar L; L' = nextChar L
      in Returns (Token [lastChar, curChar L'] kind, L'))"

definition scan_string :: "lexer \<Rightarrow> (token \<times> lexer) result" where
  "scan_string L =
     (let L1 = nextChar L; startPos = curPos L1 in
      case string_loop L1 of
        None \<Rightarrow> Diverges
      | Some (Inl e) \<Rightarrow> Aborts e
      | Some (Inr L2) \<Rightarrow>
          Returns (Token (slice (source L2) startPos (curPos L2)) STRING, L2))"

definition scan_number :: "lexer \<Rightarrow> (token \<times> lexer) result" where
  "scan_number L =
     (let startPos = curPos L; L1 = digits_loop L in
      if peek L1 = CHR ''.'' then
        (let L2 = nextChar L1 in
         if \<not> isdigit (peek L2) then Aborts (LexerAbort ''Illegal character in number.'')
         else (let L3 = digits_loop L2 in
               Returns (Token (slice (source L3) startPos (curPos L3 + 1)) NUMBER, L3)))
      else Returns (Token (slice (source L1) startPos (curPos L1 + 1)) NUMBER, L1))"

definition scan_word :: "lexer \<Rightarrow> (token \<times> lexer) result" where
  "scan_word L =
     (let startPos = curPos L; L1 = alnum_loop L;
          tokText = slice (source L1) startPos (curPos L1 + 1)
      in case checkIfKeyword tokText of
           None \<Rightarrow> Returns (Token tokText IDENT, L1)
         | Some keyword \<Rightarrow> Returns (Token tokText keyword, L1))"

definition scan_token :: "lexer \<Rightarrow> (token \<times> lexer) result" where
  "scan_token L =
     (let c = curChar L in
      if c = CHR ''+'' then Returns (Token [c] PLUS, L)
      else if c = CHR ''-'' then Returns (Token [c] MINUS, L)
      else if c = CHR ''*'' then Returns (Token [c] ASTERISK, L)
      else if c = CHR ''/'' then Returns (Token [c] SLASH, L)
      else if c = LF then Returns (Token [c] NEWLINE, L)
      else if c = CHR ''='' then
        (if peek L = CHR ''='' then two_char L EQEQ else Returns (Token [c] EQ, L))
      else if c = CHR ''>'' then
        (if peek L = CHR ''='' then two_char L GTEQ else Returns (Token [c] GT, L))
      else if c = CHR ''<'' then
        (if peek L = CHR ''='' then two_char L LTEQ else Returns (Token [c] LT, L))
      else if c = CHR ''!'' then
        (if peek L = CHR ''='' then two_char L NOTEQ
         else Aborts (LexerAbort (''Expected !=,  got !'' @ [peek L])))
      else if c = DQUOTE then scan_string L
      else if isdigit c then scan_number L
      else if isalpha c then scan_word L
      else if c = NUL then Returns (Token [c] EOF, L)
      else Aborts (LexerAbort (''Unknown token: '' @ [c])))"

text \<open>\<open>Lexer.getToken\<close>: skip blanks, skip a comment, scan one token, and step past its
  last character.\<close>

definition getToken :: "lexer \<Rightarrow> (token \<times> lexer) result" where
  "getToken L =
     (case skipComment (skipWhitespace L) of
        None \<Rightarrow> Diverges
      | Some L1 \<Rightarrow> rbind (scan_token L1) (\<lambda>(tok, L2). Returns (tok, nextChar L2)))"

subsection \<open>Progress of the lexer\<close>

text \<open>
  \<open>chars_left\<close> bounds the work the lexer still has: the characters after the cursor,
  plus one while the current character is not the end-of-file marker. No step of the
  lexer increases it, and a token other than \<open>EOF\<close> decreases it.
\<close>

definition chars_left :: "lexer \<Rightarrow> nat" where
  "chars_left L = (if curChar L = NUL then 0 else 1) + (length (source L) - Suc (curPos L))"

lemma chars_left_nextChar: "chars_left (nextChar L) \<le> chars_left L"
  by (auto simp: chars_left_def nextChar_def Let_def)

lemma chars_left_nextChar_less: "curChar L \<noteq> NUL \<Longrightarrow> chars_left (nextChar L) < chars_left L"
  by (auto simp: chars_left_def nextChar_def Let_def)

lemma chars_left_skipWhitespace: "chars_left (skipWhitespace L) \<le> chars_left L"
proof (induction L rule: skipWhitespace.induct)
  case (1 L)
  show ?case
  proof (cases "is_space (curChar L)")
    case True
    then have "chars_left (skipWhitespace L) = chars_left (skipWhitespace (nextChar L))"
      by (subst skipWhitespace.simps) simp
    also have "\<dots> \<le> chars_left (nextChar L)" using 1 True by simp
    also have "\<dots> \<le> chars_left L" by (rule chars_left_nextChar)
    finally show ?thesis .
  next
    case False
    then show ?thesis by (subst skipWhitespace.simps) simp
  qed
qed

lemma chars_left_skipComment_loop:
  assumes "skipComment_loop L = Some L'"
  shows "chars_left L' \<le> chars_left L"
proof (rule skipComment_loop.raw_induct [where P = "\<lambda>L L'. chars_left L' \<le> chars_left L"])
  show "skipComment_loop L = Some L'" by (rule assms)
next
  fix f L La
  assume IH: "\<And>x y. f x = Some y \<Longrightarrow> chars_left y \<le> chars_left x"
    and eq: "(if curChar L \<noteq> LF then f (nextChar L) else Some L) = Some La"
  show "chars_left La \<le> chars_left L"
  proof (cases "curChar L \<noteq> LF")
    case True
    with eq have "f (nextChar L) = Some La" by simp
    then have "chars_left La \<le> chars_left (nextChar L)" by (rule IH)
    also have "\<dots> \<le> chars_left L" by (rule chars_left_nextChar)
    finally show ?thesis .
  next
    case False
    with eq show ?thesis by simp
  qed
qed

lemma chars_left_skipComment: "skipComment L = Some L' \<Longrightarrow> chars_left L' \<le> chars_left L"
  by (auto simp: skipComment_def chars_left_skipComment_loop split: if_splits)

lemma string_loop_Inr:
  assumes "string_loop L = Some r"
  shows "\<forall>L'. r = Inr L' \<longrightarrow> chars_left L' \<le> chars_left L \<and> curChar L' = DQUOTE"
proof (rule string_loop.raw_induct
    [where P = "\<lambda>L r. \<forall>L'. r = Inr L' \<longrightarrow> chars_left L' \<le> chars_left L \<and> curChar L' = DQUOTE"])
  show "string_loop L = Some r" by (rule assms)
next
  fix f L r
  assume IH: "\<And>x y. f x = Some y \<Longrightarrow>
        \<forall>L'. y = Inr L' \<longrightarrow> chars_left L' \<le> chars_left x \<and> curChar L' = DQUOTE"
    and eq: "(if curChar L \<noteq> DQUOTE
              then if illegal_in_string (curChar L)
                   then Some (Inl (LexerAbort ''Illegal character in string.''))
                   else f (nextChar L)
              else Some (Inr L)) = Some r"
  show "\<forall>L'. r = Inr L' \<longrightarrow> chars_left L' \<le> chars_left L \<and> curChar L' = DQUOTE"
  proof (cases "curChar L \<noteq> DQUOTE")
    case False
    with eq show ?thesis by auto
  next
    case True
    show ?thesis
    proof (cases "illegal_in_string (curChar L)")
      case True
      with eq \<open>curChar L \<noteq> DQUOTE\<close> show ?thesis by auto
    next
      case False
      with eq \<open>curChar L \<noteq> DQUOTE\<close> have "f (nextChar L) = Some r" by simp
      from IH [OF this] chars_left_nextChar [of L] show ?thesis
        by (auto intro: order_trans)
    qed
  qed
qed

lemma chars_left_string_loop:
  "string_loop L = Some (Inr L') \<Longrightarrow> chars_left L' \<le> chars_left L"
  using string_loop_Inr by blast

lemma chars_left_digits_loop: "chars_left (digits_loop L) \<le> chars_left L"
proof (induction L rule: digits_loop.induct)
  case (1 L)
  show ?case
  proof (cases "isdigit (peek L)")
    case True
    then have "chars_left (digits_loop L) = chars_left (digits_loop (nextChar L))"
      by (subst digits_loop.simps) simp
    also have "\<dots> \<le> chars_left (nextChar L)" using 1 True by simp
    also have "\<dots> \<le> chars_left L" by (rule chars_left_nextChar)
    finally show ?thesis .
  next
    case False
    then show ?thesis by (subst digits_loop.simps) simp
  qed
qed

lemma chars_left_alnum_loop: "chars_left (alnum_loop L) \<le> chars_left L"
proof (induction L rule: alnum_loop.induct)
  case (1 L)
  show ?case
  proof (cases "isalnum (peek L)")
    case True
    then have "chars_left (alnum_loop L) = chars_left (alnum_loop (nextChar L))"
      by (subst alnum_loop.simps) simp
    also have "\<dots> \<le> chars_left (nextChar L)" using 1 True by simp
    also have "\<dots> \<le> chars_left L" by (rule chars_left_nextChar)
    finally show ?thesis .
  next
    case False
    then show ?thesis by (subst alnum_loop.simps) simp
  qed
qed

lemma curChar_digits_loop: "curChar L \<noteq> NUL \<Longrightarrow> curChar (digits_loop L) \<noteq> NUL"
proof (induction L rule: digits_loop.induct)
  case (1 L)
  show ?case
  proof (cases "isdigit (peek L)")
    case True
    then have "curChar (nextChar L) \<noteq> NUL"
      by (auto simp: peek_def nextChar_def Let_def split: if_splits)
    with 1 True show ?thesis by (subst digits_loop.simps) simp
  next
    case False
    with 1 show ?thesis by (subst digits_loop.simps) simp
  qed
qed

lemma curChar_alnum_loop: "curChar L \<noteq> NUL \<Longrightarrow> curChar (alnum_loop L) \<noteq> NUL"
proof (induction L rule: alnum_loop.induct)
  case (1 L)
  show ?case
  proof (cases "isalnum (peek L)")
    case True
    then have "curChar (nextChar L) \<noteq> NUL"
      by (auto simp: peek_def nextChar_def Let_def split: if_splits)
    with 1 True show ?thesis by (subst alnum_loop.simps) simp
  next
    case False
    with 1 show ?thesis by (subst alnum_loop.simps) simp
  qed
qed

lemma curChar_string_loop: "string_loop L = Some (Inr L') \<Longrightarrow> curChar L' = DQUOTE"
  using string_loop_Inr by blast

text \<open>Every token that \<open>scan_token\<close> returns ends on a character other than the
  end-of-file marker, unless it is the \<open>EOF\<close> token itself.\<close>

lemma scan_token_chars_left:
  assumes "scan_token L = Returns (t, L')"
  shows "chars_left L' \<le> chars_left L \<and> (tokenKind t \<noteq> EOF \<longrightarrow> curChar L' \<noteq> NUL)"
proof -
  have two: "two_char L k = Returns (t, L') \<Longrightarrow> peek L = CHR ''='' \<Longrightarrow>
      chars_left L' \<le> chars_left L \<and> curChar L' \<noteq> NUL" for k
    by (auto simp: two_char_def Let_def chars_left_def peek_def nextChar_def
             split: if_splits)
  have str: "scan_string L = Returns (t, L') \<Longrightarrow>
      chars_left L' \<le> chars_left L \<and> curChar L' \<noteq> NUL"
    using chars_left_nextChar [of L]
    by (auto simp: scan_string_def Let_def split: option.splits sum.splits
             dest!: string_loop_Inr)
  have num: "scan_number L = Returns (t, L') \<Longrightarrow> isdigit (curChar L) \<Longrightarrow>
      chars_left L' \<le> chars_left L \<and> curChar L' \<noteq> NUL"
  proof -
    assume a: "scan_number L = Returns (t, L')" and d: "isdigit (curChar L)"
    let ?L1 = "digits_loop L"
    have c1: "curChar ?L1 \<noteq> NUL" using d by (simp add: curChar_digits_loop isdigit_not_NUL)
    show ?thesis
    proof (cases "peek ?L1 = CHR ''.''")
      case False
      with a have "L' = ?L1" by (simp add: scan_number_def Let_def)
      with c1 show ?thesis by (simp add: chars_left_digits_loop)
    next
      case True
      let ?L2 = "nextChar ?L1"
      from a True have dd: "isdigit (peek ?L2)" and L': "L' = digits_loop ?L2"
        by (auto simp: scan_number_def Let_def split: if_splits)
      have "curChar ?L2 = CHR ''.''" using True
        by (auto simp: peek_def nextChar_def Let_def split: if_splits)
      then have "curChar L' \<noteq> NUL" unfolding L' by (intro curChar_digits_loop) simp
      moreover have "chars_left L' \<le> chars_left L"
        unfolding L'
        by (rule order_trans [OF chars_left_digits_loop
              order_trans [OF chars_left_nextChar chars_left_digits_loop]])
      ultimately show ?thesis by simp
    qed
  qed
  have wrd: "scan_word L = Returns (t, L') \<Longrightarrow> isalpha (curChar L) \<Longrightarrow>
      chars_left L' \<le> chars_left L \<and> curChar L' \<noteq> NUL"
    by (auto simp: scan_word_def Let_def chars_left_alnum_loop curChar_alnum_loop
             isalpha_not_NUL split: option.splits)
  show ?thesis
    using assms two str num wrd
    by (auto simp: scan_token_def Let_def split: if_splits)
qed

lemma getToken_chars_left:
  assumes "getToken L = Returns (t, L')"
  shows "chars_left L' \<le> chars_left L"
    and "tokenKind t \<noteq> EOF \<Longrightarrow> chars_left L' < chars_left L"
proof -
  from assms obtain L1 L2 where
    1: "skipComment (skipWhitespace L) = Some L1" and
    2: "scan_token L1 = Returns (t, L2)" and 3: "L' = nextChar L2"
    by (auto simp: getToken_def split: option.splits result.splits
             elim!: rbind.elims)
  have a: "chars_left L1 \<le> chars_left L"
    using chars_left_skipComment [OF 1] chars_left_skipWhitespace [of L] by simp
  note b = scan_token_chars_left [OF 2]
  show "chars_left L' \<le> chars_left L"
    using a b chars_left_nextChar [of L2] 3 by simp
  show "chars_left L' < chars_left L" if "tokenKind t \<noteq> EOF"
    using a b chars_left_nextChar_less [of L2] 3 that by simp
qed

section \<open>The emitter\<close>

text \<open>
  Modelled from the spec: the emitter object that \<open>Parser\<close> writes to is not among the
  sources. The spec describes it as a text buffer with append operations into a
  preamble stream and a body stream. Its state is modelled here as the sequence of the
  calls the parser makes on it (\<open>emit\<close>, \<open>emitLine\<close>, \<open>headerLine\<close>, with their
  arguments), which determines whatever it buffers.
\<close>

datatype emit_call = Emit string | EmitLine string | HeaderLine string

text \<open>
  Modelled from the spec: the two streams as text. \<open>emit\<close> appends its fragment to the
  body, \<open>emitLine\<close> appends the fragment and a line break to the body, and
  \<open>headerLine\<close> appends the fragment and a line break to the preamble.
\<close>

fun body_text :: "emit_call list \<Rightarrow> string" where
  "body_text [] = []"
| "body_text (Emit s # cs) = s @ body_text cs"
| "body_text (EmitLine s # cs) = s @ [LF] @ body_text cs"
| "body_text (HeaderLine s # cs) = body_text cs"

fun preamble_text :: "emit_call list \<Rightarrow> string" where
  "preamble_text [] = []"
| "preamble_text (HeaderLine s # cs) = s @ [LF] @ preamble_text cs"
| "preamble_text (Emit s # cs) = preamble_text cs"
| "preamble_text (EmitLine s # cs) = preamble_text cs"

section \<open>The parser (parse.py)\<close>

text \<open>
  The state of a \<open>Parser\<close> object. \<open>symbols\<close> and \<open>labelsDeclared\<close> are sets.
  \<open>labelsGotoed\<close> is a Python set too, but \<open>program\<close> iterates over it, and Python
  leaves the order of that iteration open; the model keeps its elements in the order of
  their first insertion and iterates in that order.
\<close>

record parser =
  lexer :: lexer
  emitter :: "emit_call list"
  symbols :: "string set"
  labelsDeclared :: "string set"
  labelsGotoed :: "string list"
  curToken :: token
  peekToken :: token

definition emit :: "string \<Rightarrow> parser \<Rightarrow> parser" where
  "emit code p = p\<lparr>emitter := emitter p @ [Emit code]\<rparr>"

definition emitLine :: "string \<Rightarrow> parser \<Rightarrow> parser" where
  "emitLine code p = p\<lparr>emitter := emitter p @ [EmitLine code]\<rparr>"

definition headerLine :: "string \<Rightarrow> parser \<Rightarrow> parser" where
  "headerLine code p = p\<lparr>emitter := emitter p @ [HeaderLine code]\<rparr>"

definition checkToken :: "TokenType \<Rightarrow> parser \<Rightarrow> bool" where
  "checkToken kind p = (kind = tokenKind (curToken p))"

definition checkPeek :: "TokenType \<Rightarrow> parser \<Rightarrow> bool" where
  "checkPeek kind p = (kind = tokenKind (peekToken p))"

definition abort :: "string \<Rightarrow> 'a result" where
  "abort message = Aborts (ParserAbort message)"

definition nextToken :: "parser \<Rightarrow> parser result" where
  "nextToken p =
     rbind (getToken (lexer p))
       (\<lambda>(tok, L). Returns (p\<lparr>curToken := peekToken p, peekToken := tok, lexer := L\<rparr>))"

definition match :: "TokenType \<Rightarrow> parser \<Rightarrow> parser result" where
  "match kind p =
     (if \<not> checkToken kind p
      then abort (''Expected '' @ kind_name kind @ '', got '' @ kind_name (tokenKind (curToken p)))
      else nextToken p)"

text \<open>The constructor: empty sets, and two calls of \<open>nextToken\<close> that fill the current
  and the lookahead token.\<close>

definition Parser :: "lexer \<Rightarrow> emit_call list \<Rightarrow> parser result" where
  "Parser lx em =
     rbind (getToken lx) (\<lambda>(tok1, L1).
     rbind (getToken L1) (\<lambda>(tok2, L2).
       Returns \<lparr>lexer = L2, emitter = em, symbols = {}, labelsDeclared = {},
                labelsGotoed = [], curToken = tok1, peekToken = tok2\<rparr>))"

subsection \<open>Progress of the parser\<close>

text \<open>
  \<open>tokens_left\<close> bounds the tokens the parser can still consume: the current and the
  lookahead token unless they are \<open>EOF\<close>, and the work left to the lexer. A call of
  \<open>nextToken\<close> on a current token other than \<open>EOF\<close> decreases it.
\<close>

definition tokens_left :: "parser \<Rightarrow> nat" where
  "tokens_left p =
     (if tokenKind (curToken p) = EOF then 0
      else 1 + (if tokenKind (peekToken p) = EOF then 0 else 1 + chars_left (lexer p)))"

lemma rbind_cong [fundef_cong]:
  "m = m' \<Longrightarrow> (\<And>x. m' = Returns x \<Longrightarrow> f x = f' x) \<Longrightarrow> rbind m f = rbind m' f'"
  by (cases m') auto

lemma rbind_Returns_iff: "rbind m f = Returns y \<longleftrightarrow> (\<exists>x. m = Returns x \<and> f x = Returns y)"
  by (cases m) auto

lemma tokens_left_emit [simp]:
  "tokens_left (emit s p) = tokens_left p"
  "tokens_left (emitLine s p) = tokens_left p"
  "tokens_left (headerLine s p) = tokens_left p"
  by (simp_all add: tokens_left_def emit_def emitLine_def headerLine_def)

lemma checkToken_emit [simp]:
  "checkToken k (emit s p) = checkToken k p"
  "checkToken k (emitLine s p) = checkToken k p"
  "checkToken k (headerLine s p) = checkToken k p"
  by (simp_all add: checkToken_def emit_def emitLine_def headerLine_def)

lemma tokens_left_nextToken:
  assumes "nextToken p = Returns p'" and "tokenKind (curToken p) \<noteq> EOF"
  shows "tokens_left p' < tokens_left p"
proof -
  from assms(1) obtain t L where g: "getToken (lexer p) = Returns (t, L)"
    and p': "p' = p\<lparr>curToken := peekToken p, peekToken := t, lexer := L\<rparr>"
    by (auto simp: nextToken_def rbind_Returns_iff)
  show ?thesis
    using getToken_chars_left [OF g] assms(2)
    by (auto simp: tokens_left_def p')
qed

lemma curToken_emit [simp]:
  "curToken (emit s p) = curToken p"
  "curToken (emitLine s p) = curToken p"
  "curToken (headerLine s p) = curToken p"
  by (simp_all add: emit_def emitLine_def headerLine_def)

lemma tokens_left_nextToken_check:
  "nextToken p = Returns p' \<Longrightarrow> checkToken k p \<Longrightarrow> k \<noteq> EOF \<Longrightarrow> tokens_left p' < tokens_left p"
  by (rule tokens_left_nextToken) (auto simp: checkToken_def)

lemma tokens_left_match:
  "match k p = Returns p' \<Longrightarrow> k \<noteq> EOF \<Longrightarrow> tokens_left p' < tokens_left p"
  by (auto simp: match_def abort_def checkToken_def split: if_splits dest: tokens_left_nextToken)

subsection \<open>Expressions\<close>

text \<open>\<open>primary ::= number | ident\<close>\<close>

definition primary :: "parser \<Rightarrow> parser result" where
  "primary p =
     (if checkToken NUMBER p then nextToken (emit (tokenText (curToken p)) p)
      else if checkToken IDENT p then
        (if tokenText (curToken p) \<notin> symbols p
         then abort (''Referencing variable before assignment: '' @ tokenText (curToken p))
         else nextToken (emit (tokenText (curToken p)) p))
      else abort (''Unexpected token at '' @ tokenText (curToken p)))"

text \<open>\<open>unary ::= ["+" | "-"] primary\<close>\<close>

definition unary :: "parser \<Rightarrow> parser result" where
  "unary p =
     (if checkToken PLUS p \<or> checkToken MINUS p
      then rbind (nextToken (emit (tokenText (curToken p)) p)) primary
      else primary p)"

lemma tokens_left_primary: "primary p = Returns p' \<Longrightarrow> tokens_left p' < tokens_left p"
  by (auto simp: primary_def abort_def checkToken_def split: if_splits
           dest: tokens_left_nextToken)

lemma tokens_left_unary: "unary p = Returns p' \<Longrightarrow> tokens_left p' < tokens_left p"
  by (auto simp: unary_def rbind_Returns_iff checkToken_def split: if_splits
           dest!: tokens_left_primary dest: tokens_left_nextToken)

text \<open>\<open>term ::= unary {("/" | "*") unary}\<close>: the loop, then the rule.\<close>

function term_loop :: "parser \<Rightarrow> parser result" where
  "term_loop p =
     (if checkToken ASTERISK p \<or> checkToken SLASH p
      then rbind (nextToken (emit (tokenText (curToken p)) p)) (\<lambda>p1.
           rbind (unary p1) (\<lambda>p2. term_loop p2))
      else Returns p)"
  by pat_completeness auto
termination
  by (relation "measure tokens_left")
     (auto simp: checkToken_def dest!: tokens_left_unary dest: tokens_left_nextToken)

declare term_loop.simps [simp del]

definition term_rule :: "parser \<Rightarrow> parser result" where
  "term_rule p = rbind (unary p) term_loop"

lemma tokens_left_term_loop: "term_loop p = Returns p' \<Longrightarrow> tokens_left p' \<le> tokens_left p"
proof (induction p rule: term_loop.induct)
  case (1 p)
  show ?case
  proof (cases "checkToken ASTERISK p \<or> checkToken SLASH p")
    case False
    with 1(2) show ?thesis by (subst (asm) term_loop.simps) simp
  next
    case True
    with 1(2) obtain p1 p2 where
      a: "nextToken (emit (tokenText (curToken p)) p) = Returns p1" and
      b: "unary p1 = Returns p2" and c: "term_loop p2 = Returns p'"
      by (subst (asm) term_loop.simps) (auto simp: rbind_Returns_iff)
    have "tokens_left p' \<le> tokens_left p2" using 1(1) True a b c by blast
    moreover have "tokens_left p2 < tokens_left p1" using b by (rule tokens_left_unary)
    moreover have "tokens_left p1 < tokens_left p"
      using a True by (auto simp: checkToken_def dest: tokens_left_nextToken)
    ultimately show ?thesis by simp
  qed
qed

lemma tokens_left_term_rule: "term_rule p = Returns p' \<Longrightarrow> tokens_left p' < tokens_left p"
  by (auto simp: term_rule_def rbind_Returns_iff
           dest!: tokens_left_unary tokens_left_term_loop)

text \<open>\<open>expression ::= term {("-" | "+") term}\<close>\<close>

function expression_loop :: "parser \<Rightarrow> parser result" where
  "expression_loop p =
     (if checkToken PLUS p \<or> checkToken MINUS p
      then rbind (nextToken (emit (tokenText (curToken p)) p)) (\<lambda>p1.
           rbind (term_rule p1) (\<lambda>p2. expression_loop p2))
      else Returns p)"
  by pat_completeness auto
termination
  by (relation "measure tokens_left")
     (auto simp: checkToken_def dest!: tokens_left_term_rule dest: tokens_left_nextToken)

declare expression_loop.simps [simp del]

definition expression :: "parser \<Rightarrow> parser result" where
  "expression p = rbind (term_rule p) expression_loop"

lemma tokens_left_expression_loop:
  "expression_loop p = Returns p' \<Longrightarrow> tokens_left p' \<le> tokens_left p"
proof (induction p rule: expression_loop.induct)
  case (1 p)
  show ?case
  proof (cases "checkToken PLUS p \<or> checkToken MINUS p")
    case False
    with 1(2) show ?thesis by (subst (asm) expression_loop.simps) simp
  next
    case True
    with 1(2) obtain p1 p2 where
      a: "nextToken (emit (tokenText (curToken p)) p) = Returns p1" and
      b: "term_rule p1 = Returns p2" and c: "expression_loop p2 = Returns p'"
      by (subst (asm) expression_loop.simps) (auto simp: rbind_Returns_iff)
    have "tokens_left p' \<le> tokens_left p2" using 1(1) True a b c by blast
    moreover have "tokens_left p2 < tokens_left p1" using b by (rule tokens_left_term_rule)
    moreover have "tokens_left p1 < tokens_left p"
      using a True by (auto simp: checkToken_def dest: tokens_left_nextToken)
    ultimately show ?thesis by simp
  qed
qed

lemma tokens_left_expression: "expression p = Returns p' \<Longrightarrow> tokens_left p' < tokens_left p"
  by (auto simp: expression_def rbind_Returns_iff
           dest!: tokens_left_term_rule tokens_left_expression_loop)

text \<open>\<open>comparison ::= expression (("==" | "!=" | ">" | ">=" | "<" | "<=") expression)+\<close>\<close>

definition isComparisonOperator :: "parser \<Rightarrow> bool" where
  "isComparisonOperator p =
     (checkToken GT p \<or> checkToken GTEQ p \<or> checkToken LT p \<or> checkToken LTEQ p
      \<or> checkToken EQEQ p \<or> checkToken NOTEQ p)"

lemma isComparisonOperator_emit [simp]: "isComparisonOperator (emit s p) = isComparisonOperator p"
  by (simp add: isComparisonOperator_def)

lemma tokens_left_nextToken_cmp:
  "nextToken p = Returns p' \<Longrightarrow> isComparisonOperator p \<Longrightarrow> tokens_left p' < tokens_left p"
  by (rule tokens_left_nextToken) (auto simp: isComparisonOperator_def checkToken_def)

function comparison_loop :: "parser \<Rightarrow> parser result" where
  "comparison_loop p =
     (if isComparisonOperator p
      then rbind (nextToken (emit (tokenText (curToken p)) p)) (\<lambda>p1.
           rbind (expression p1) (\<lambda>p2. comparison_loop p2))
      else Returns p)"
  by pat_completeness auto
termination
  by (relation "measure tokens_left")
     (auto dest!: tokens_left_expression dest: tokens_left_nextToken_cmp)

declare comparison_loop.simps [simp del]

definition comparison :: "parser \<Rightarrow> parser result" where
  "comparison p =
     rbind (expression p) (\<lambda>p1.
     rbind (if isComparisonOperator p1
            then rbind (nextToken (emit (tokenText (curToken p1)) p1)) expression
            else abort (''Expected comparison operator at: '' @ tokenText (curToken p1)))
       comparison_loop)"

lemma tokens_left_comparison_loop:
  "comparison_loop p = Returns p' \<Longrightarrow> tokens_left p' \<le> tokens_left p"
proof (induction p rule: comparison_loop.induct)
  case (1 p)
  show ?case
  proof (cases "isComparisonOperator p")
    case False
    with 1(2) show ?thesis by (subst (asm) comparison_loop.simps) simp
  next
    case True
    with 1(2) obtain p1 p2 where
      a: "nextToken (emit (tokenText (curToken p)) p) = Returns p1" and
      b: "expression p1 = Returns p2" and c: "comparison_loop p2 = Returns p'"
      by (subst (asm) comparison_loop.simps) (auto simp: rbind_Returns_iff)
    have "tokens_left p' \<le> tokens_left p2" using 1(1) True a b c by blast
    moreover have "tokens_left p2 < tokens_left p1" using b by (rule tokens_left_expression)
    moreover have "tokens_left p1 < tokens_left p"
      using a True by (auto dest: tokens_left_nextToken_cmp)
    ultimately show ?thesis by simp
  qed
qed

lemma tokens_left_comparison: "comparison p = Returns p' \<Longrightarrow> tokens_left p' < tokens_left p"
  by (auto simp: comparison_def rbind_Returns_iff abort_def split: if_splits
           dest!: tokens_left_expression tokens_left_comparison_loop
           dest: tokens_left_nextToken_cmp)

subsection \<open>Statements\<close>

text \<open>\<open>nl ::= '\n'+\<close>: one \<open>NEWLINE\<close> is required, and any further ones are consumed.
  \<open>program\<close> starts with the same loop.\<close>

function nl_loop :: "parser \<Rightarrow> parser result" where
  "nl_loop p = (if checkToken NEWLINE p then rbind (nextToken p) (\<lambda>p1. nl_loop p1) else Returns p)"
  by pat_completeness auto
termination
  by (relation "measure tokens_left")
     (auto simp: checkToken_def dest: tokens_left_nextToken)

declare nl_loop.simps [simp del]

definition nl :: "parser \<Rightarrow> parser result" where
  "nl p = rbind (match NEWLINE p) nl_loop"

lemma tokens_left_nl_loop: "nl_loop p = Returns p' \<Longrightarrow> tokens_left p' \<le> tokens_left p"
proof (induction p rule: nl_loop.induct)
  case (1 p)
  show ?case
  proof (cases "checkToken NEWLINE p")
    case False
    with 1(2) show ?thesis by (subst (asm) nl_loop.simps) simp
  next
    case True
    with 1(2) obtain p1 where a: "nextToken p = Returns p1" and c: "nl_loop p1 = Returns p'"
      by (subst (asm) nl_loop.simps) (auto simp: rbind_Returns_iff)
    have "tokens_left p' \<le> tokens_left p1" using 1(1) True a c by blast
    moreover have "tokens_left p1 < tokens_left p"
      using a True by (auto simp: checkToken_def dest: tokens_left_nextToken)
    ultimately show ?thesis by simp
  qed
qed

lemma tokens_left_nl: "nl p = Returns p' \<Longrightarrow> tokens_left p' < tokens_left p"
  by (auto simp: nl_def rbind_Returns_iff dest!: tokens_left_nl_loop dest: tokens_left_match)

text \<open>The branches of \<open>statement\<close> that do not contain statements themselves.\<close>

text \<open>\<open>"PRINT" (expression | string)\<close>\<close>

definition statement_PRINT :: "parser \<Rightarrow> parser result" where
  "statement_PRINT p =
     rbind (nextToken p) (\<lambda>p1.
       if checkToken STRING p1 then
         nextToken (emitLine (''printf('' @ [DQUOTE] @ tokenText (curToken p1)
                              @ [BACKSLASH] @ ''n'' @ [DQUOTE] @ '');'') p1)
       else
         rbind (expression (emit (''printf('' @ [DQUOTE] @ ''%'' @ ''.2f'' @ [BACKSLASH] @ ''n''
                                  @ [DQUOTE] @ '', (float)('') p1))
           (\<lambda>p2. Returns (emitLine ''));'' p2)))"

text \<open>\<open>"IF" comparison "THEN" nl\<close> and \<open>"WHILE" comparison "REPEAT" nl\<close>: the part
  of the two block statements before their body.\<close>

definition statement_IF_head :: "parser \<Rightarrow> parser result" where
  "statement_IF_head p =
     rbind (nextToken p) (\<lambda>p1.
     rbind (comparison (emit ''if('' p1)) (\<lambda>p2.
     rbind (match THEN p2) (\<lambda>p3.
     rbind (nl p3) (\<lambda>p4. Returns (emitLine ''){'' p4)))))"

definition statement_WHILE_head :: "parser \<Rightarrow> parser result" where
  "statement_WHILE_head p =
     rbind (nextToken p) (\<lambda>p1.
     rbind (comparison (emit ''while('' p1)) (\<lambda>p2.
     rbind (match REPEAT p2) (\<lambda>p3.
     rbind (nl p3) (\<lambda>p4. Returns (emitLine ''){'' p4)))))"

text \<open>\<open>"LABEL" ident\<close>\<close>

definition statement_LABEL :: "parser \<Rightarrow> parser result" where
  "statement_LABEL p =
     rbind (nextToken p) (\<lambda>p1.
       if tokenText (curToken p1) \<in> labelsDeclared p1
       then abort (''Label already exists: '' @ tokenText (curToken p1))
       else
         (let p2 = p1\<lparr>labelsDeclared := insert (tokenText (curToken p1)) (labelsDeclared p1)\<rparr>;
              p3 = emitLine (tokenText (curToken p2) @ '':'') p2
          in match IDENT p3))"

text \<open>\<open>"GOTO" ident\<close>\<close>

definition statement_GOTO :: "parser \<Rightarrow> parser result" where
  "statement_GOTO p =
     rbind (nextToken p) (\<lambda>p1.
       let name = tokenText (curToken p1);
           p2 = p1\<lparr>labelsGotoed :=
                  (if name \<in> set (labelsGotoed p1) then labelsGotoed p1
                   else labelsGotoed p1 @ [name])\<rparr>;
           p3 = emitLine (''goto '' @ tokenText (curToken p2) @ '';'') p2
       in match IDENT p3)"

text \<open>The declaration that \<open>LET\<close> and \<open>INPUT\<close> make when the name is not yet in
  \<open>symbols\<close>.\<close>

definition declare_symbol :: "parser \<Rightarrow> parser" where
  "declare_symbol p =
     (if tokenText (curToken p) \<notin> symbols p
      then headerLine (''float '' @ tokenText (curToken p) @ '';'')
             (p\<lparr>symbols := insert (tokenText (curToken p)) (symbols p)\<rparr>)
      else p)"

text \<open>\<open>"LET" ident "=" expression\<close>\<close>

definition statement_LET :: "parser \<Rightarrow> parser result" where
  "statement_LET p =
     rbind (nextToken p) (\<lambda>p1.
       let p2 = declare_symbol p1;
           p3 = emit (tokenText (curToken p2) @ '' = '') p2
       in rbind (match IDENT p3) (\<lambda>p4.
          rbind (match EQ p4) (\<lambda>p5.
          rbind (expression p5) (\<lambda>p6. Returns (emitLine '';'' p6)))))"

text \<open>\<open>"INPUT" ident\<close>\<close>

definition statement_INPUT :: "parser \<Rightarrow> parser result" where
  "statement_INPUT p =
     rbind (nextToken p) (\<lambda>p1.
       let p2 = declare_symbol p1;
           p3 = emitLine (''if(0==scanf('' @ [DQUOTE] @ ''%'' @ ''f'' @ [DQUOTE] @ '', &''
                          @ tokenText (curToken p2) @ '')) {'') p2;
           p4 = emitLine (tokenText (curToken p3) @ '' = 0;'') p3;
           p5 = emit (''scanf('' @ [DQUOTE] @ ''%'') p4;
           p6 = emitLine (''*s'' @ [DQUOTE] @ '');'') p5;
           p7 = emitLine ''}'' p6
       in match IDENT p7)"

lemma tokens_left_declare_symbol [simp]: "tokens_left (declare_symbol p) = tokens_left p"
  by (simp add: declare_symbol_def tokens_left_def headerLine_def)

lemma curToken_declare_symbol [simp]: "curToken (declare_symbol p) = curToken p"
  by (simp add: declare_symbol_def headerLine_def)

lemma checkToken_declare_symbol [simp]: "checkToken k (declare_symbol p) = checkToken k p"
  by (simp add: checkToken_def)

lemma tokens_left_labels_update [simp]:
  "tokens_left (p\<lparr>labelsDeclared := ld\<rparr>) = tokens_left p"
  "tokens_left (p\<lparr>labelsGotoed := lg\<rparr>) = tokens_left p"
  by (simp_all add: tokens_left_def)

lemma tokens_left_simple_statements:
  assumes "tokenKind (curToken p) \<noteq> EOF"
  shows "statement_PRINT p = Returns p' \<Longrightarrow> tokens_left p' < tokens_left p"
    and "statement_IF_head p = Returns p' \<Longrightarrow> tokens_left p' < tokens_left p"
    and "statement_WHILE_head p = Returns p' \<Longrightarrow> tokens_left p' < tokens_left p"
    and "statement_LABEL p = Returns p' \<Longrightarrow> tokens_left p' < tokens_left p"
    and "statement_GOTO p = Returns p' \<Longrightarrow> tokens_left p' < tokens_left p"
    and "statement_LET p = Returns p' \<Longrightarrow> tokens_left p' < tokens_left p"
    and "statement_INPUT p = Returns p' \<Longrightarrow> tokens_left p' < tokens_left p"
proof -
  have first: "nextToken p = Returns p1 \<Longrightarrow> tokens_left p1 < tokens_left p" for p1
    using assms by (rule tokens_left_nextToken [rotated])
  show "statement_PRINT p = Returns p' \<Longrightarrow> tokens_left p' < tokens_left p"
    by (auto simp: statement_PRINT_def rbind_Returns_iff checkToken_def split: if_splits
             dest!: first tokens_left_expression dest: tokens_left_nextToken)
  show "statement_IF_head p = Returns p' \<Longrightarrow> tokens_left p' < tokens_left p"
    by (auto simp: statement_IF_head_def rbind_Returns_iff
             dest!: first tokens_left_comparison tokens_left_nl dest: tokens_left_match)
  show "statement_WHILE_head p = Returns p' \<Longrightarrow> tokens_left p' < tokens_left p"
    by (auto simp: statement_WHILE_head_def rbind_Returns_iff
             dest!: first tokens_left_comparison tokens_left_nl dest: tokens_left_match)
  show "statement_LABEL p = Returns p' \<Longrightarrow> tokens_left p' < tokens_left p"
    by (auto simp: statement_LABEL_def rbind_Returns_iff abort_def Let_def
             split: if_splits dest!: first dest: tokens_left_match)
  show "statement_GOTO p = Returns p' \<Longrightarrow> tokens_left p' < tokens_left p"
    by (auto simp: statement_GOTO_def rbind_Returns_iff abort_def Let_def
             split: if_splits dest!: first dest: tokens_left_match)
  show "statement_LET p = Returns p' \<Longrightarrow> tokens_left p' < tokens_left p"
    by (auto simp: statement_LET_def rbind_Returns_iff Let_def
             dest!: first tokens_left_expression tokens_left_match)
  show "statement_INPUT p = Returns p' \<Longrightarrow> tokens_left p' < tokens_left p"
    by (auto simp: statement_INPUT_def rbind_Returns_iff Let_def
             dest!: first dest: tokens_left_match)
qed

text \<open>
  \<open>statement\<close>, and the loops \<open>while not self.checkToken(kind): self.statement()\<close> that
  it runs for the body of an \<open>IF\<close> (until \<open>ENDIF\<close>) and of a \<open>WHILE\<close> (until
  \<open>ENDWHILE\<close>) and that \<open>program\<close> runs until \<open>EOF\<close>. Every branch of \<open>statement\<close>
  ends with \<open>nl\<close>.
\<close>

function statement :: "parser \<Rightarrow> parser result"
  and block :: "TokenType \<Rightarrow> parser \<Rightarrow> parser result" where
  "statement p =
     rbind
       (if checkToken PRINT p then statement_PRINT p
        else if checkToken IF p then
          rbind (statement_IF_head p) (\<lambda>p1.
          rbind (block ENDIF p1) (\<lambda>p2.
          rbind (match ENDIF p2) (\<lambda>p3. Returns (emitLine ''}'' p3))))
        else if checkToken WHILE p then
          rbind (statement_WHILE_head p) (\<lambda>p1.
          rbind (block ENDWHILE p1) (\<lambda>p2.
          rbind (match ENDWHILE p2) (\<lambda>p3. Returns (emitLine ''}'' p3))))
        else if checkToken LABEL p then statement_LABEL p
        else if checkToken GOTO p then statement_GOTO p
        else if checkToken LET p then statement_LET p
        else if checkToken INPUT p then statement_INPUT p
        else abort (''Invalid Statement at '' @ tokenText (curToken p) @ '' (''
                    @ kind_name (tokenKind (curToken p)) @ '')''))
       nl"
| "block kind p =
     (if \<not> checkToken kind p then rbind (statement p) (\<lambda>p1. block kind p1) else Returns p)"
  by pat_completeness auto

lemma statement_block_tokens_left:
  "statement_block_dom (Inl p) \<Longrightarrow> statement p = Returns p' \<Longrightarrow> tokens_left p' < tokens_left p"
  "statement_block_dom (Inr (k, q)) \<Longrightarrow> block k q = Returns q' \<Longrightarrow> tokens_left q' \<le> tokens_left q"
proof (induction p and k q arbitrary: p' and q' rule: statement_block.pinduct)
  case (1 p)
  from 1(4) obtain r where body: "(if checkToken PRINT p then statement_PRINT p
        else if checkToken IF p then
          rbind (statement_IF_head p) (\<lambda>p1.
          rbind (block ENDIF p1) (\<lambda>p2.
          rbind (match ENDIF p2) (\<lambda>p3. Returns (emitLine ''}'' p3))))
        else if checkToken WHILE p then
          rbind (statement_WHILE_head p) (\<lambda>p1.
          rbind (block ENDWHILE p1) (\<lambda>p2.
          rbind (match ENDWHILE p2) (\<lambda>p3. Returns (emitLine ''}'' p3))))
        else if checkToken LABEL p then statement_LABEL p
        else if checkToken GOTO p then statement_GOTO p
        else if checkToken LET p then statement_LET p
        else if checkToken INPUT p then statement_INPUT p
        else abort (''Invalid Statement at '' @ tokenText (curToken p) @ '' (''
                    @ kind_name (tokenKind (curToken p)) @ '')'')) = Returns r"
    and nl: "nl r = Returns p'"
    by (subst (asm) statement.psimps [OF 1(1)]) (auto simp: rbind_Returns_iff)
  have "tokens_left r < tokens_left p"
  proof -
    consider (PRINT) "checkToken PRINT p" | (IF) "\<not> checkToken PRINT p" "checkToken IF p"
      | (WHILE) "\<not> checkToken PRINT p" "\<not> checkToken IF p" "checkToken WHILE p"
      | (other) "\<not> checkToken PRINT p" "\<not> checkToken IF p" "\<not> checkToken WHILE p"
      by blast
    then show ?thesis
    proof cases
      case PRINT
      with body show ?thesis
        by (auto simp: checkToken_def dest: tokens_left_simple_statements(1) [rotated])
    next
      case IF
      with body obtain p1 p2 p3 where
        a: "statement_IF_head p = Returns p1" and b: "block ENDIF p1 = Returns p2" and
        c: "match ENDIF p2 = Returns p3" and d: "r = emitLine ''}'' p3"
        by (auto simp: rbind_Returns_iff)
      have "tokens_left p1 < tokens_left p"
        using a IF by (auto simp: checkToken_def dest: tokens_left_simple_statements(2) [rotated])
      moreover have "tokens_left p2 \<le> tokens_left p1"
        using 1(2) IF a b by blast
      moreover have "tokens_left p3 < tokens_left p2"
        using c by (auto dest: tokens_left_match)
      ultimately show ?thesis using d by simp
    next
      case WHILE
      with body obtain p1 p2 p3 where
        a: "statement_WHILE_head p = Returns p1" and b: "block ENDWHILE p1 = Returns p2" and
        c: "match ENDWHILE p2 = Returns p3" and d: "r = emitLine ''}'' p3"
        by (auto simp: rbind_Returns_iff)
      have "tokens_left p1 < tokens_left p"
        using a WHILE
        by (auto simp: checkToken_def dest: tokens_left_simple_statements(3) [rotated])
      moreover have "tokens_left p2 \<le> tokens_left p1"
        using 1(3) WHILE a b by blast
      moreover have "tokens_left p3 < tokens_left p2"
        using c by (auto dest: tokens_left_match)
      ultimately show ?thesis using d by simp
    next
      case other
      with body show ?thesis
        by (auto simp: checkToken_def abort_def split: if_splits
                 dest: tokens_left_simple_statements(4-7) [rotated])
    qed
  qed
  moreover have "tokens_left p' < tokens_left r" using nl by (rule tokens_left_nl)
  ultimately show ?case by simp
next
  case (2 kind p)
  show ?case
  proof (cases "checkToken kind p")
    case True
    with 2(4) show ?thesis by (subst (asm) block.psimps [OF 2(1)]) simp
  next
    case False
    with 2(4) obtain p1 where a: "statement p = Returns p1" and b: "block kind p1 = Returns q'"
      by (subst (asm) block.psimps [OF 2(1)]) (auto simp: rbind_Returns_iff)
    have "tokens_left p1 < tokens_left p" using 2(2) False a by blast
    moreover have "tokens_left q' \<le> tokens_left p1" using 2(3) False a b by blast
    ultimately show ?thesis by simp
  qed
qed

termination statement
proof (relation "measure (\<lambda>x. case x of Inl p \<Rightarrow> 2 * tokens_left p + 1
                                      | Inr (k, p) \<Rightarrow> 2 * tokens_left p + 2)")
  show "wf (measure (\<lambda>x. case x of Inl p \<Rightarrow> 2 * tokens_left p + 1
                                  | Inr (k, p) \<Rightarrow> 2 * tokens_left p + 2))"
    by simp
next
  fix p p1
  assume "\<not> checkToken PRINT p" "checkToken IF p" "statement_IF_head p = Returns p1"
  then have "tokens_left p1 < tokens_left p"
    by (auto simp: checkToken_def dest: tokens_left_simple_statements(2) [rotated])
  then show "(Inr (ENDIF, p1), Inl p) \<in> measure (\<lambda>x. case x of Inl p \<Rightarrow> 2 * tokens_left p + 1
                                  | Inr (k, p) \<Rightarrow> 2 * tokens_left p + 2)"
    by simp
next
  fix p p1
  assume "\<not> checkToken PRINT p" "\<not> checkToken IF p" "checkToken WHILE p"
    "statement_WHILE_head p = Returns p1"
  then have "tokens_left p1 < tokens_left p"
    by (auto simp: checkToken_def dest: tokens_left_simple_statements(3) [rotated])
  then show "(Inr (ENDWHILE, p1), Inl p) \<in> measure (\<lambda>x. case x of Inl p \<Rightarrow> 2 * tokens_left p + 1
                                  | Inr (k, p) \<Rightarrow> 2 * tokens_left p + 2)"
    by simp
next
  fix kind p
  show "(Inl p, Inr (kind, p)) \<in> measure (\<lambda>x. case x of Inl p \<Rightarrow> 2 * tokens_left p + 1
                                  | Inr (k, p) \<Rightarrow> 2 * tokens_left p + 2)"
    by simp
next
  fix kind p p1
  assume "statement p = Returns p1" "statement_block_dom (Inl p)"
  then have "tokens_left p1 < tokens_left p"
    by (auto dest: statement_block_tokens_left(1))
  then show "(Inr (kind, p1), Inr (kind, p)) \<in> measure (\<lambda>x. case x of Inl p \<Rightarrow> 2 * tokens_left p + 1
                                  | Inr (k, p) \<Rightarrow> 2 * tokens_left p + 2)"
    by simp
qed

declare statement.simps [simp del] block.simps [simp del]

subsection \<open>Programs\<close>

text \<open>The loop at the end of \<open>program\<close>: the first label in \<open>labelsGotoed\<close> that is not
  in \<open>labelsDeclared\<close> aborts the run.\<close>

definition check_labels :: "parser \<Rightarrow> parser result" where
  "check_labels p =
     (case find (\<lambda>label. label \<notin> labelsDeclared p) (labelsGotoed p) of
        Some label \<Rightarrow> abort (''Attempting to GOTO to an undeclared label: '' @ label)
      | None \<Rightarrow> Returns p)"

text \<open>\<open>program ::= {statement}\<close>\<close>

definition program :: "parser \<Rightarrow> parser result" where
  "program p =
     (let p1 = headerLine ''#include <stdio.h>'' p;
          p2 = headerLine ''int main(void){'' p1
      in rbind (nl_loop p2) (\<lambda>p3.
         rbind (block EOF p3) (\<lambda>p4.
           let p5 = emitLine ''return 0;'' p4;
               p6 = emitLine ''}'' p5
           in check_labels p6)))"

text \<open>
  Modelled from the spec: the entry point that the spec calls \<open>translate()\<close> is not
  among the sources. It builds a lexer on the source text and a parser on that lexer
  with an empty emitter, and runs \<open>program\<close>; the result is what the emitter received.
\<close>

definition translate :: "string \<Rightarrow> emit_call list result" where
  "translate src =
     rbind (Parser (Lexer src) []) (\<lambda>p.
     rbind (program p) (\<lambda>p'. Returns (emitter p')))"

section \<open>Translations of given programs\<close>

text \<open>
  C8. Translating \<open>PRINT "HI"\<close> followed by a newline: between the fixed preamble and
  the fixed epilogue the parser emits one line, the call \<open>printf("HI\n");\<close>. The
  text of the literal stands in the format string itself, with the line terminator
  \<open>\n\<close> after it and nothing else; no \<open>(float)\<close> coercion is emitted.
\<close>

theorem C8_print_string_literal:
  "translate (''PRINT '' @ [DQUOTE] @ ''HI'' @ [DQUOTE] @ [LF]) =
     Returns [HeaderLine ''#include <stdio.h>'', HeaderLine ''int main(void){'',
              EmitLine (''printf('' @ [DQUOTE] @ ''HI'' @ [BACKSLASH] @ ''n'' @ [DQUOTE] @ '');''),
              EmitLine ''return 0;'', EmitLine ''}'']"
  by code_simp

text \<open>
  C5 (as stated, refuted). Translating \<open>LET x = 1 + 2 * 3\<close> followed by a newline: the
  body text is \<open>x = 1+2*3;\<close> and the epilogue; the source text \<open>1 + 2 * 3\<close> with its
  blanks does not occur in it.
\<close>

theorem C5_rhs_not_verbatim:
  "translate (''LET x = 1 + 2 * 3'' @ [LF]) =
     Returns [HeaderLine ''#include <stdio.h>'', HeaderLine ''int main(void){'',
              HeaderLine ''float x;'',
              Emit ''x = '', Emit ''1'', Emit ''+'', Emit ''2'', Emit ''*'', Emit ''3'',
              EmitLine '';'', EmitLine ''return 0;'', EmitLine ''}'']
   \<and> \<not> sublist ''1 + 2 * 3''
         (body_text [HeaderLine ''#include <stdio.h>'', HeaderLine ''int main(void){'',
              HeaderLine ''float x;'',
              Emit ''x = '', Emit ''1'', Emit ''+'', Emit ''2'', Emit ''*'', Emit ''3'',
              EmitLine '';'', EmitLine ''return 0;'', EmitLine ''}''])"
  by code_simp

text \<open>
  C5 (amended). Translating \<open>LET x = 1 + 2 * 3\<close> followed by a newline makes exactly one
  preamble declaration for \<open>x\<close> (\<open>float x;\<close>), and emits the assignment as \<open>x = \<close>
  followed by the spellings of the tokens \<open>1\<close>, \<open>+\<close>, \<open>2\<close>, \<open>*\<close>, \<open>3\<close> in source
  order and \<open>;\<close>: no parentheses are added, and the blanks of the source are not
  emitted, so that the body text of the assignment is \<open>x = 1+2*3;\<close>.
\<close>

theorem C5_let_assignment:
  "\<exists>out. translate (''LET x = 1 + 2 * 3'' @ [LF]) = Returns out
     \<and> out = [HeaderLine ''#include <stdio.h>'', HeaderLine ''int main(void){'',
              HeaderLine ''float x;'',
              Emit ''x = '', Emit ''1'', Emit ''+'', Emit ''2'', Emit ''*'', Emit ''3'',
              EmitLine '';'', EmitLine ''return 0;'', EmitLine ''}'']
     \<and> length (filter (\<lambda>c. c = HeaderLine ''float x;'') out) = 1
     \<and> preamble_text out = ''#include <stdio.h>'' @ [LF] @ ''int main(void){'' @ [LF]
                             @ ''float x;'' @ [LF]
     \<and> body_text out = ''x = 1+2*3;'' @ [LF] @ ''return 0;'' @ [LF] @ ''}'' @ [LF]"
  by (intro exI conjI, code_simp) (simp_all)

section \<open>Well-formed lexer states\<close>

text \<open>
  The states that \<open>Lexer\<close> builds and \<open>nextChar\<close> keeps: the buffer ends with the
  line feed the constructor appended, and the current character is the one under the
  cursor, or the end-of-file marker once the cursor has left the buffer.
\<close>

definition lexer_ok :: "lexer \<Rightarrow> bool" where
  "lexer_ok L \<longleftrightarrow>
     source L \<noteq> [] \<and> last (source L) = LF \<and>
     curChar L = (if curPos L \<ge> length (source L) then NUL else source L ! curPos L)"

lemma lexer_ok_Lexer: "lexer_ok (Lexer src)"
  by (cases src) (simp_all add: lexer_ok_def Lexer_def Let_def)

lemma source_nextChar [simp]: "source (nextChar L) = source L"
  by (simp add: nextChar_def Let_def)

lemma curPos_nextChar [simp]: "curPos (nextChar L) = Suc (curPos L)"
  by (simp add: nextChar_def Let_def)

lemma lexer_ok_nextChar: "lexer_ok L \<Longrightarrow> lexer_ok (nextChar L)"
  by (simp add: lexer_ok_def nextChar_def Let_def)

lemma lexer_ok_not_last:
  assumes "lexer_ok L" and "curPos L < length (source L)" and "curChar L \<noteq> LF"
  shows "Suc (curPos L) < length (source L)"
proof (rule ccontr)
  assume "\<not> Suc (curPos L) < length (source L)"
  with assms(2) have eq: "curPos L = length (source L) - 1" by simp
  from assms(1) have ne: "source L \<noteq> []" by (simp add: lexer_ok_def)
  from assms(1,2) have "curChar L = source L ! curPos L" by (simp add: lexer_ok_def)
  also have "\<dots> = last (source L)" using ne eq by (simp add: last_conv_nth)
  finally show False using assms(1,3) by (simp add: lexer_ok_def)
qed

lemma lexer_ok_in_buffer:
  "lexer_ok L \<Longrightarrow> curChar L \<noteq> NUL \<Longrightarrow> curPos L < length (source L)"
  by (auto simp: lexer_ok_def split: if_splits)

lemma skipWhitespace_ok:
  "lexer_ok L \<Longrightarrow> lexer_ok (skipWhitespace L) \<and> source (skipWhitespace L) = source L
     \<and> \<not> is_space (curChar (skipWhitespace L))"
proof (induction L rule: skipWhitespace.induct)
  case (1 L)
  show ?case
  proof (cases "is_space (curChar L)")
    case True
    with 1 show ?thesis
      by (subst (1 2 3) skipWhitespace.simps) (simp add: lexer_ok_nextChar)
  next
    case False
    with 1 show ?thesis by (subst (1 2 3) skipWhitespace.simps) simp
  qed
qed

lemma skipComment_loop_ok:
  "lexer_ok L \<Longrightarrow> curPos L < length (source L) \<Longrightarrow>
     \<exists>L'. skipComment_loop L = Some L' \<and> lexer_ok L' \<and> source L' = source L \<and> curChar L' = LF"
proof (induction "length (source L) - curPos L" arbitrary: L rule: less_induct)
  case less
  show ?case
  proof (cases "curChar L = LF")
    case True
    with less.prems show ?thesis by (subst skipComment_loop.simps) simp
  next
    case False
    with less.prems have in_buf: "Suc (curPos L) < length (source L)"
      by (intro lexer_ok_not_last)
    have "\<exists>L'. skipComment_loop (nextChar L) = Some L' \<and> lexer_ok L' \<and>
             source L' = source (nextChar L) \<and> curChar L' = LF"
      using less.prems in_buf by (intro less.hyps) (auto simp: lexer_ok_nextChar)
    with False show ?thesis by (subst skipComment_loop.simps) simp
  qed
qed

lemma skipComment_ok:
  assumes "lexer_ok L"
  shows "\<exists>L'. skipComment L = Some L' \<and> lexer_ok L' \<and> source L' = source L
           \<and> (curChar L \<noteq> CHR ''#'' \<longrightarrow> L' = L)"
proof (cases "curChar L = CHR ''#''")
  case True
  with assms have "curPos L < length (source L)" by (intro lexer_ok_in_buffer) auto
  from skipComment_loop_ok [OF assms this] True show ?thesis
    by (auto simp: skipComment_def)
next
  case False
  with assms show ?thesis by (simp add: skipComment_def)
qed

lemma string_loop_ok:
  "lexer_ok L \<Longrightarrow> curPos L < length (source L) \<Longrightarrow>
     \<exists>r. string_loop L = Some r \<and> (\<forall>L'. r = Inr L' \<longrightarrow> lexer_ok L' \<and> source L' = source L)
       \<and> (\<forall>e. r = Inl e \<longrightarrow> e = LexerAbort ''Illegal character in string.'')
       \<and> (DQUOTE \<notin> set (drop (curPos L) (source L)) \<longrightarrow> (\<exists>e. r = Inl e))"
proof (induction "length (source L) - curPos L" arbitrary: L rule: less_induct)
  case less
  show ?case
  proof (cases "curChar L = DQUOTE")
    case True
    with less.prems have "DQUOTE \<in> set (drop (curPos L) (source L))"
      by (auto simp: lexer_ok_def in_set_conv_nth intro!: exI [of _ 0])
    with True less.prems show ?thesis by (subst string_loop.simps) simp
  next
    case False
    show ?thesis
    proof (cases "illegal_in_string (curChar L)")
      case True
      with False show ?thesis by (subst string_loop.simps) simp
    next
      case legal: False
      then have "curChar L \<noteq> LF" by (auto simp: illegal_in_string_def)
      with less.prems have in_buf: "Suc (curPos L) < length (source L)"
        by (intro lexer_ok_not_last)
      have "\<exists>r. string_loop (nextChar L) = Some r \<and>
            (\<forall>L'. r = Inr L' \<longrightarrow> lexer_ok L' \<and> source L' = source (nextChar L))
          \<and> (\<forall>e. r = Inl e \<longrightarrow> e = LexerAbort ''Illegal character in string.'')
          \<and> (DQUOTE \<notin> set (drop (curPos (nextChar L)) (source (nextChar L))) \<longrightarrow> (\<exists>e. r = Inl e))"
        using less.prems in_buf by (intro less.hyps) (auto simp: lexer_ok_nextChar)
      moreover have "set (drop (Suc (curPos L)) (source L)) \<subseteq> set (drop (curPos L) (source L))"
        by (rule set_drop_subset_set_drop) simp
      ultimately show ?thesis
        using False legal by (subst string_loop.simps) auto
    qed
  qed
qed

lemma peek_conv:
  "peek L = (if Suc (curPos L) \<ge> length (source L) then NUL else source L ! Suc (curPos L))"
  by (simp add: peek_def)

lemma digits_loop_ok:
  "lexer_ok L \<Longrightarrow> lexer_ok (digits_loop L) \<and> source (digits_loop L) = source L"
proof (induction L rule: digits_loop.induct)
  case (1 L)
  show ?case
  proof (cases "isdigit (peek L)")
    case True
    with 1 show ?thesis by (subst (1 2) digits_loop.simps) (simp add: lexer_ok_nextChar)
  next
    case False
    with 1 show ?thesis by (subst (1 2) digits_loop.simps) simp
  qed
qed

lemma alnum_loop_ok:
  "lexer_ok L \<Longrightarrow> lexer_ok (alnum_loop L) \<and> source (alnum_loop L) = source L"
proof (induction L rule: alnum_loop.induct)
  case (1 L)
  show ?case
  proof (cases "isalnum (peek L)")
    case True
    with 1 show ?thesis by (subst (1 2) alnum_loop.simps) (simp add: lexer_ok_nextChar)
  next
    case False
    with 1 show ?thesis by (subst (1 2) alnum_loop.simps) simp
  qed
qed

lemma scan_string_ok:
  assumes "lexer_ok L" and "curChar L = DQUOTE"
  shows "scan_string L \<noteq> Diverges"
    and "scan_string L = Returns (t, L') \<Longrightarrow> lexer_ok L' \<and> source L' = source L"
    and "DQUOTE \<notin> set (drop (Suc (curPos L)) (source L)) \<Longrightarrow>
           scan_string L = Aborts (LexerAbort ''Illegal character in string.'')"
proof -
  from assms have "curPos L < length (source L)" by (intro lexer_ok_in_buffer) auto
  with assms have "Suc (curPos L) < length (source L)" by (intro lexer_ok_not_last) auto
  then have "curPos (nextChar L) < length (source (nextChar L))" by simp
  from string_loop_ok [OF lexer_ok_nextChar [OF assms(1)] this]
  obtain r where r: "string_loop (nextChar L) = Some r"
    "\<forall>L'. r = Inr L' \<longrightarrow> lexer_ok L' \<and> source L' = source L"
    "\<forall>e. r = Inl e \<longrightarrow> e = LexerAbort ''Illegal character in string.''"
    "DQUOTE \<notin> set (drop (Suc (curPos L)) (source L)) \<longrightarrow> (\<exists>e. r = Inl e)"
    by auto
  show "scan_string L \<noteq> Diverges"
    using r(1) by (simp add: scan_string_def Let_def split: sum.splits)
  show "scan_string L = Returns (t, L') \<Longrightarrow> lexer_ok L' \<and> source L' = source L"
    using r(1,2) by (auto simp: scan_string_def Let_def split: sum.splits)
  show "DQUOTE \<notin> set (drop (Suc (curPos L)) (source L)) \<Longrightarrow>
           scan_string L = Aborts (LexerAbort ''Illegal character in string.'')"
    using r(1,3,4) by (auto simp: scan_string_def Let_def split: sum.splits)
qed

lemma two_char_ok:
  assumes "lexer_ok L"
  shows "two_char L k \<noteq> Diverges"
    and "two_char L k = Returns (t, L') \<Longrightarrow> lexer_ok L' \<and> source L' = source L"
  using assms by (auto simp: two_char_def Let_def lexer_ok_nextChar)

lemma scan_number_ok:
  assumes "lexer_ok L"
  shows "scan_number L \<noteq> Diverges"
    and "scan_number L = Returns (t, L') \<Longrightarrow> lexer_ok L' \<and> source L' = source L"
proof -
  note a = digits_loop_ok [OF assms]
  note b = digits_loop_ok [OF lexer_ok_nextChar [OF conjunct1 [OF a]]]
  show "scan_number L \<noteq> Diverges"
    by (simp add: scan_number_def Let_def)
  show "scan_number L = Returns (t, L') \<Longrightarrow> lexer_ok L' \<and> source L' = source L"
    using a b by (auto simp: scan_number_def Let_def split: if_splits)
qed


lemma scan_word_ok:
  assumes "lexer_ok L"
  shows "scan_word L \<noteq> Diverges"
    and "scan_word L = Returns (t, L') \<Longrightarrow> lexer_ok L' \<and> source L' = source L"
proof -
  note a = alnum_loop_ok [OF assms]
  show "scan_word L \<noteq> Diverges"
    by (simp add: scan_word_def Let_def split: option.splits)
  show "scan_word L = Returns (t, L') \<Longrightarrow> lexer_ok L' \<and> source L' = source L"
    using a by (auto simp: scan_word_def Let_def split: option.splits)
qed

lemma scan_token_cases:
  assumes "scan_token L = r"
  obtains (two) k where "r = two_char L k"
    | (str) "curChar L = DQUOTE" "r = scan_string L"
    | (num) "isdigit (curChar L)" "r = scan_number L"
    | (wrd) "isalpha (curChar L)" "r = scan_word L"
    | (one) k where "r = Returns (Token [curChar L] k, L)"
    | (abort) m where "r = Aborts (LexerAbort m)"
  using assms unfolding scan_token_def Let_def
  by (auto split: if_splits)


lemma scan_token_ok:
  assumes "lexer_ok L"
  shows "scan_token L \<noteq> Diverges"
    and "scan_token L = Returns (t, L') \<Longrightarrow> lexer_ok L' \<and> source L' = source L"
proof -
  show "scan_token L \<noteq> Diverges"
  proof
    assume "scan_token L = Diverges"
    then show False
      using two_char_ok(1) [OF assms] scan_string_ok(1) [OF assms]
        scan_number_ok(1) [OF assms] scan_word_ok(1) [OF assms]
      by (cases rule: scan_token_cases) (auto dest: sym)
  qed
  show "lexer_ok L' \<and> source L' = source L" if "scan_token L = Returns (t, L')"
    using that
  proof (cases rule: scan_token_cases)
    case (two k)
    then show ?thesis using two_char_ok(2) [OF assms] by metis
  next
    case str
    then show ?thesis using scan_string_ok(2) [OF assms] by metis
  next
    case num
    then show ?thesis using scan_number_ok(2) [OF assms] by metis
  next
    case wrd
    then show ?thesis using scan_word_ok(2) [OF assms] by metis
  next
    case (one k)
    then show ?thesis using assms by simp
  next
    case (abort m)
    then show ?thesis by simp
  qed
qed

text \<open>On a well-formed state \<open>getToken\<close> returns a token or aborts, and the state it
  returns is well-formed, on the same buffer.\<close>

lemma getToken_ok:
  assumes "lexer_ok L"
  shows "getToken L \<noteq> Diverges"
    and "getToken L = Returns (t, L') \<Longrightarrow> lexer_ok L' \<and> source L' = source L"
proof -
  from skipWhitespace_ok [OF assms] have w: "lexer_ok (skipWhitespace L)"
    "source (skipWhitespace L) = source L" by auto
  from skipComment_ok [OF w(1)] obtain L1 where
    c: "skipComment (skipWhitespace L) = Some L1" "lexer_ok L1" "source L1 = source L"
    using w(2) by auto
  have g: "getToken L = rbind (scan_token L1) (\<lambda>(tok, L2). Returns (tok, nextChar L2))"
    using c(1) by (simp add: getToken_def)
  show "getToken L \<noteq> Diverges"
    using scan_token_ok(1) [OF c(2)] unfolding g
    by (cases "scan_token L1") auto
  show "lexer_ok L' \<and> source L' = source L" if "getToken L = Returns (t, L')"
  proof -
    from that obtain L2 where s: "scan_token L1 = Returns (t, L2)" and L': "L' = nextChar L2"
      unfolding g by (auto simp: rbind_Returns_iff)
    from scan_token_ok(2) [OF c(2) s] c(3) show ?thesis
      unfolding L' by (simp add: lexer_ok_nextChar)
  qed
qed

lemma getToken_skip_nothing:
  assumes "\<not> is_space (curChar L)" and "curChar L \<noteq> CHR ''#''"
  shows "getToken L = rbind (scan_token L) (\<lambda>(tok, L2). Returns (tok, nextChar L2))"
proof -
  have "skipWhitespace L = L" using assms(1) by (subst skipWhitespace.simps) simp
  then show ?thesis using assms(2) by (simp add: getToken_def skipComment_def)
qed

section \<open>Sequences of tokens\<close>

text \<open>\<open>getTokens n L\<close> is the outcome of \<open>n\<close> successive calls of \<open>getToken\<close>, starting
  in the state \<open>L\<close>: the tokens in the order of the calls, and the last state.\<close>

fun getTokens :: "nat \<Rightarrow> lexer \<Rightarrow> (token list \<times> lexer) result" where
  "getTokens 0 L = Returns ([], L)"
| "getTokens (Suc n) L =
     rbind (getToken L) (\<lambda>(t, L1).
     rbind (getTokens n L1) (\<lambda>(ts, L2). Returns (t # ts, L2)))"

text \<open>Every state that calls of \<open>getToken\<close> reach from \<open>Lexer src\<close> is well-formed.\<close>

lemma getTokens_ok:
  "getTokens n L = Returns (ts, L') \<Longrightarrow> lexer_ok L \<Longrightarrow> lexer_ok L' \<and> source L' = source L"
proof (induction n arbitrary: L ts)
  case 0
  then show ?case by simp
next
  case (Suc n)
  from Suc.prems(1) obtain t L1 ts' where
    a: "getToken L = Returns (t, L1)" and b: "getTokens n L1 = Returns (ts', L')"
    by (auto simp: rbind_Returns_iff)
  from getToken_ok(2) [OF Suc.prems(2) a] Suc.IH [OF b] show ?case by simp
qed

lemma getTokens_Lexer_ok:
  "getTokens n (Lexer src) = Returns (ts, L) \<Longrightarrow> lexer_ok L \<and> source L = src @ [LF]"
  using getTokens_ok [OF _ lexer_ok_Lexer] by (fastforce simp: Lexer_def Let_def)

subsection \<open>The end of the input\<close>

definition at_end :: "lexer \<Rightarrow> bool" where
  "at_end L \<longleftrightarrow> curPos L \<ge> length (source L) \<and> curChar L = NUL"

lemma scan_token_NUL: "curChar L = NUL \<Longrightarrow> scan_token L = Returns (Token [NUL] EOF, L)"
  by (simp add: scan_token_def Let_def)

lemma getToken_at_end:
  assumes "at_end L"
  shows "getToken L = Returns (Token [NUL] EOF, nextChar L)" and "at_end (nextChar L)"
proof -
  from assms have c: "curChar L = NUL" by (simp add: at_end_def)
  then have "getToken L = rbind (scan_token L) (\<lambda>(tok, L2). Returns (tok, nextChar L2))"
    by (intro getToken_skip_nothing) (simp_all add: is_space_def)
  then show "getToken L = Returns (Token [NUL] EOF, nextChar L)"
    using c by (simp add: scan_token_NUL)
  show "at_end (nextChar L)"
    using assms by (simp add: at_end_def nextChar_def Let_def)
qed

lemma getTokens_at_end:
  "at_end L \<Longrightarrow> \<exists>L'. getTokens m L = Returns (replicate m (Token [NUL] EOF), L') \<and> at_end L'"
proof (induction m arbitrary: L)
  case 0
  then show ?case by simp
next
  case (Suc m)
  from Suc.IH [OF getToken_at_end(2) [OF Suc.prems]] getToken_at_end(1) [OF Suc.prems]
  show ?case by auto
qed

lemma checkIfKeyword_value:
  "checkIfKeyword s = Some k \<Longrightarrow> 100 \<le> kind_value k \<and> kind_value k < 200"
  unfolding checkIfKeyword_def by (auto simp: find_Some_iff)

lemma scan_word_not_EOF: "scan_word L = Returns (t, L') \<Longrightarrow> tokenKind t \<noteq> EOF"
  by (auto simp: scan_word_def Let_def split: option.splits dest: checkIfKeyword_value)

lemma scan_string_not_EOF: "scan_string L = Returns (t, L') \<Longrightarrow> tokenKind t \<noteq> EOF"
  by (auto simp: scan_string_def Let_def split: option.splits sum.splits)

lemma scan_number_not_EOF: "scan_number L = Returns (t, L') \<Longrightarrow> tokenKind t \<noteq> EOF"
  by (auto simp: scan_number_def Let_def split: if_splits)

lemma scan_token_EOF:
  assumes "scan_token L = Returns (t, L')" and "tokenKind t = EOF"
  shows "curChar L = NUL \<and> L' = L"
  using assms scan_string_not_EOF [of L t L'] scan_number_not_EOF [of L t L']
    scan_word_not_EOF [of L t L']
  by (auto simp: scan_token_def Let_def two_char_def split: if_splits)

text \<open>In a buffer without the character \<open>NUL\<close>, the \<open>EOF\<close> token is produced at the end
  of the buffer only.\<close>

lemma getToken_EOF_at_end:
  assumes "lexer_ok L" and "NUL \<notin> set (source L)"
    and "getToken L = Returns (t, L')" and "tokenKind t = EOF"
  shows "at_end L'"
proof -
  from skipWhitespace_ok [OF assms(1)] have w: "lexer_ok (skipWhitespace L)"
    "source (skipWhitespace L) = source L" by auto
  from skipComment_ok [OF w(1)] obtain L1 where
    c: "skipComment (skipWhitespace L) = Some L1" "lexer_ok L1" "source L1 = source L"
    using w(2) by auto
  from assms(3) c(1) obtain L2 where
    s: "scan_token L1 = Returns (t, L2)" and L': "L' = nextChar L2"
    by (auto simp: getToken_def rbind_Returns_iff)
  from scan_token_EOF [OF s assms(4)] have n: "curChar L1 = NUL" "L2 = L1" by auto
  have "curPos L1 \<ge> length (source L1)"
  proof (rule ccontr)
    assume "\<not> curPos L1 \<ge> length (source L1)"
    with c(2) n(1) have "source L1 ! curPos L1 = NUL" "curPos L1 < length (source L1)"
      by (auto simp: lexer_ok_def)
    then have "NUL \<in> set (source L1)" by (metis nth_mem)
    with assms(2) c(3) show False by simp
  qed
  then show ?thesis unfolding L' n(2) by (simp add: at_end_def nextChar_def Let_def)
qed

lemma getTokens_EOF_at_end:
  assumes "getTokens n L = Returns (ts, L')" and "lexer_ok L" and "NUL \<notin> set (source L)"
    and "\<exists>t\<in>set ts. tokenKind t = EOF"
  shows "at_end L'"
  using assms
proof (induction n arbitrary: L ts)
  case 0
  then show ?case by simp
next
  case (Suc n)
  from Suc.prems(1) obtain t L1 ts' where
    a: "getToken L = Returns (t, L1)" and b: "getTokens n L1 = Returns (ts', L')"
    and ts: "ts = t # ts'"
    by (auto simp: rbind_Returns_iff)
  note ok = getToken_ok(2) [OF Suc.prems(2) a]
  show ?case
  proof (cases "tokenKind t = EOF")
    case True
    from getToken_EOF_at_end [OF Suc.prems(2,3) a True] have "at_end L1" .
    from getTokens_at_end [OF this, of n] b show ?thesis by auto
  next
    case False
    with Suc.prems(4) ts have "\<exists>t\<in>set ts'. tokenKind t = EOF" by auto
    with Suc.IH [OF b] ok Suc.prems(3) show ?thesis by simp
  qed
qed

text \<open>The tokens of a lexer state, up to and including the first \<open>EOF\<close> token: what a
  caller reads who calls \<open>getToken\<close> until it sees \<open>EOF\<close>.\<close>

function tokens_from :: "lexer \<Rightarrow> token list result" where
  "tokens_from L =
     rbind (getToken L) (\<lambda>(t, L').
       if tokenKind t = EOF then Returns [t]
       else rbind (tokens_from L') (\<lambda>ts. Returns (t # ts)))"
  by pat_completeness auto
termination
  by (relation "measure chars_left") (auto dest: getToken_chars_left(2))

declare tokens_from.simps [simp del]

definition tokens :: "string \<Rightarrow> token list result" where
  "tokens src = tokens_from (Lexer src)"

lemma tokens_from_ok: "lexer_ok L \<Longrightarrow> tokens_from L \<noteq> Diverges"
proof (induction L rule: tokens_from.induct)
  case (1 L)
  show ?case
  proof (cases "getToken L")
    case Diverges
    with getToken_ok(1) [OF 1(2)] show ?thesis by simp
  next
    case (Aborts e)
    then show ?thesis by (subst tokens_from.simps) simp
  next
    case (Returns x)
    obtain t L' where x: "x = (t, L')" by (cases x)
    show ?thesis
    proof (cases "tokenKind t = EOF")
      case True
      with Returns x show ?thesis by (subst tokens_from.simps) simp
    next
      case False
      from getToken_ok(2) [OF 1(2)] Returns x have "lexer_ok L'" by simp
      with 1(1) Returns x False have "tokens_from L' \<noteq> Diverges" by simp
      with Returns x False show ?thesis
        by (subst tokens_from.simps) (cases "tokens_from L'", auto)
    qed
  qed
qed

lemma tokens_from_shape:
  "tokens_from L = Returns ts \<Longrightarrow>
     ts \<noteq> [] \<and> tokenKind (last ts) = EOF \<and> (\<forall>t\<in>set (butlast ts). tokenKind t \<noteq> EOF)"
proof (induction L arbitrary: ts rule: tokens_from.induct)
  case (1 L)
  from 1(2) obtain t L' where g: "getToken L = Returns (t, L')"
    and r: "(if tokenKind t = EOF then Returns [t]
             else rbind (tokens_from L') (\<lambda>ts. Returns (t # ts))) = Returns ts"
    by (subst (asm) tokens_from.simps) (auto simp: rbind_Returns_iff)
  show ?case
  proof (cases "tokenKind t = EOF")
    case True
    with r show ?thesis by auto
  next
    case False
    with r obtain ts' where a: "tokens_from L' = Returns ts'" and ts: "ts = t # ts'"
      by (auto simp: rbind_Returns_iff)
    from 1(1) [OF g refl False a] have "ts' \<noteq> [] \<and> tokenKind (last ts') = EOF \<and>
        (\<forall>t\<in>set (butlast ts'). tokenKind t \<noteq> EOF)" by simp
    with False ts show ?thesis by auto
  qed
qed

section \<open>Claims about the lexer\<close>






lemma scan_token_digit: "isdigit (curChar L) \<Longrightarrow> scan_token L = scan_number L"
  by (auto simp: scan_token_def Let_def isdigit_def superscript_digits_def)

lemma not_digit_dot: "\<not> isdigit (CHR ''.'')"
  by (simp add: isdigit_def superscript_digits_def)




text \<open>
  C9. Scanning a string literal always terminates. In every state \<open>L\<close> reached from
  \<open>Lexer src\<close>, the call \<open>getToken L\<close> returns or aborts; and when the token it starts
  (after skipping blanks and a comment) is an opening quote with no quote anywhere after
  it in the buffer, the scan meets an illegal character inside the literal, at the
  latest the line feed that \<open>Lexer\<close> appended, and the call aborts with the lexical
  error \<open>Illegal character in string.\<close>
\<close>

theorem C9_unterminated_string_aborts:
  assumes "getTokens n (Lexer src) = Returns (ts, L)"
  shows "getToken L \<noteq> Diverges
         \<and> (\<forall>L1. skipComment (skipWhitespace L) = Some L1 \<and> curChar L1 = DQUOTE
                  \<and> DQUOTE \<notin> set (drop (Suc (curPos L1)) (source L1))
              \<longrightarrow> getToken L = Aborts (LexerAbort ''Illegal character in string.''))"
proof (intro conjI allI impI)
  from getTokens_Lexer_ok [OF assms(1)] have ok: "lexer_ok L" by simp
  from getToken_ok(1) [OF ok] show "getToken L \<noteq> Diverges" .
  fix L1
  assume a: "skipComment (skipWhitespace L) = Some L1 \<and> curChar L1 = DQUOTE
              \<and> DQUOTE \<notin> set (drop (Suc (curPos L1)) (source L1))"
  from skipWhitespace_ok [OF ok] have "lexer_ok (skipWhitespace L)" by simp
  from skipComment_ok [OF this] a have ok1: "lexer_ok L1" by auto
  have "scan_token L1 = scan_string L1"
    using a by (simp add: scan_token_def Let_def)
  with scan_string_ok(3) [OF ok1] a
  show "getToken L = Aborts (LexerAbort ''Illegal character in string.'')"
    by (simp add: getToken_def)
qed

theorem C9_unterminated_string_aborts_witness:
  "getTokens 1 (Lexer (''PRINT '' @ [DQUOTE] @ ''HI'')) =
     Returns ([Token ''PRINT'' PRINT],
              \<lparr>source = ''PRINT '' @ [DQUOTE] @ ''HI'' @ [LF], curChar = CHR '' '', curPos = 5\<rparr>)
   \<and> getToken \<lparr>source = ''PRINT '' @ [DQUOTE] @ ''HI'' @ [LF], curChar = CHR '' '', curPos = 5\<rparr>
       = Aborts (LexerAbort ''Illegal character in string.'')"
proof -
  let ?L = "\<lparr>source = ''PRINT '' @ [DQUOTE] @ ''HI'' @ [LF], curChar = CHR '' '', curPos = 5\<rparr>"
  let ?L1 = "\<lparr>source = ''PRINT '' @ [DQUOTE] @ ''HI'' @ [LF], curChar = DQUOTE, curPos = 6\<rparr>"
  have a: "getTokens 1 (Lexer (''PRINT '' @ [DQUOTE] @ ''HI'')) =
             Returns ([Token ''PRINT'' PRINT], ?L)"
    by code_simp
  have b: "skipComment (skipWhitespace ?L) = Some ?L1"
    by code_simp
  have c: "curChar ?L1 = DQUOTE" "DQUOTE \<notin> set (drop (Suc (curPos ?L1)) (source ?L1))"
    by simp_all
  from C9_unterminated_string_aborts [OF a] b c a show ?thesis by blast
qed

subsection \<open>Where a token lies in the buffer\<close>

lemma curPos_skipWhitespace: "curPos L \<le> curPos (skipWhitespace L)"
proof (induction L rule: skipWhitespace.induct)
  case (1 L)
  show ?case
  proof (cases "is_space (curChar L)")
    case True
    with 1 have "Suc (curPos L) \<le> curPos (skipWhitespace (nextChar L))" by simp
    with True show ?thesis by (subst skipWhitespace.simps) simp
  next
    case False
    then show ?thesis by (subst skipWhitespace.simps) simp
  qed
qed

lemma skipWhitespace_in_buffer:
  "lexer_ok L \<Longrightarrow> curPos L < length (source L) \<Longrightarrow>
     curPos (skipWhitespace L) < length (source L)"
proof (induction L rule: skipWhitespace.induct)
  case (1 L)
  show ?case
  proof (cases "is_space (curChar L)")
    case True
    then have "curChar L \<noteq> LF" by (auto simp: is_space_def)
    with 1(2,3) have "Suc (curPos L) < length (source L)" by (intro lexer_ok_not_last)
    with 1(1) [OF True lexer_ok_nextChar [OF 1(2)]] True show ?thesis
      by (subst skipWhitespace.simps) simp
  next
    case False
    with 1(3) show ?thesis by (subst skipWhitespace.simps) simp
  qed
qed

lemma curPos_skipComment_loop:
  assumes "skipComment_loop L = Some L'"
  shows "curPos L \<le> curPos L'"
proof (rule skipComment_loop.raw_induct [where P = "\<lambda>L L'. curPos L \<le> curPos L'"])
  show "skipComment_loop L = Some L'" by (rule assms)
next
  fix f L La
  assume IH: "\<And>x y. f x = Some y \<Longrightarrow> curPos x \<le> curPos y"
    and eq: "(if curChar L \<noteq> LF then f (nextChar L) else Some L) = Some La"
  show "curPos L \<le> curPos La"
  proof (cases "curChar L \<noteq> LF")
    case True
    with eq have "f (nextChar L) = Some La" by simp
    from IH [OF this] show ?thesis by simp
  next
    case False
    with eq show ?thesis by simp
  qed
qed

lemma curPos_string_loop:
  assumes "string_loop L = Some r"
  shows "\<forall>L'. r = Inr L' \<longrightarrow> curPos L \<le> curPos L'"
proof (rule string_loop.raw_induct
    [where P = "\<lambda>L r. \<forall>L'. r = Inr L' \<longrightarrow> curPos L \<le> curPos L'"])
  show "string_loop L = Some r" by (rule assms)
next
  fix f L r
  assume IH: "\<And>x y. f x = Some y \<Longrightarrow> \<forall>L'. y = Inr L' \<longrightarrow> curPos x \<le> curPos L'"
    and eq: "(if curChar L \<noteq> DQUOTE
              then if illegal_in_string (curChar L)
                   then Some (Inl (LexerAbort ''Illegal character in string.''))
                   else f (nextChar L)
              else Some (Inr L)) = Some r"
  show "\<forall>L'. r = Inr L' \<longrightarrow> curPos L \<le> curPos L'"
  proof (cases "curChar L \<noteq> DQUOTE")
    case False
    with eq show ?thesis by auto
  next
    case True
    show ?thesis
    proof (cases "illegal_in_string (curChar L)")
      case True
      with eq \<open>curChar L \<noteq> DQUOTE\<close> show ?thesis by auto
    next
      case False
      with eq \<open>curChar L \<noteq> DQUOTE\<close> have "f (nextChar L) = Some r" by simp
      from IH [OF this] show ?thesis by auto
    qed
  qed
qed

lemma curPos_digits_loop: "curPos L \<le> curPos (digits_loop L)"
proof (induction L rule: digits_loop.induct)
  case (1 L)
  show ?case
  proof (cases "isdigit (peek L)")
    case True
    with 1 have "Suc (curPos L) \<le> curPos (digits_loop (nextChar L))" by simp
    with True show ?thesis by (subst digits_loop.simps) simp
  next
    case False
    then show ?thesis by (subst digits_loop.simps) simp
  qed
qed

lemma curPos_alnum_loop: "curPos L \<le> curPos (alnum_loop L)"
proof (induction L rule: alnum_loop.induct)
  case (1 L)
  show ?case
  proof (cases "isalnum (peek L)")
    case True
    with 1 have "Suc (curPos L) \<le> curPos (alnum_loop (nextChar L))" by simp
    with True show ?thesis by (subst alnum_loop.simps) simp
  next
    case False
    then show ?thesis by (subst alnum_loop.simps) simp
  qed
qed

text \<open>\<open>token_within t s a b\<close>: the text of the token \<open>t\<close> is a piece of the buffer \<open>s\<close>
  that lies between the positions \<open>a\<close> and \<open>b\<close>.\<close>

definition token_within :: "token \<Rightarrow> string \<Rightarrow> nat \<Rightarrow> nat \<Rightarrow> bool" where
  "token_within t s a b \<longleftrightarrow>
     (\<exists>i\<in>{a..b}. \<exists>j\<in>{i..b}. j \<le> length s \<and> tokenText t = slice s i j)"

lemma token_withinI:
  "a \<le> i \<Longrightarrow> i \<le> j \<Longrightarrow> j \<le> b \<Longrightarrow> j \<le> length s \<Longrightarrow> tokenText t = slice s i j \<Longrightarrow>
     token_within t s a b"
  unfolding token_within_def by (rule bexI [of _ i], rule bexI [of _ j]) auto

lemma slice_one: "i < length s \<Longrightarrow> slice s i (Suc i) = [s ! i]"
proof -
  assume "i < length s"
  from Cons_nth_drop_Suc [OF this] have "drop i s = s ! i # drop (Suc i) s" by simp
  then show ?thesis by (simp add: slice_def)
qed

lemma slice_two: "Suc i < length s \<Longrightarrow> slice s i (Suc (Suc i)) = [s ! i, s ! Suc i]"
proof -
  assume a: "Suc i < length s"
  then have b: "i < length s" by simp
  from Cons_nth_drop_Suc [OF a] Cons_nth_drop_Suc [OF b]
  have "drop i s = s ! i # s ! Suc i # drop (Suc (Suc i)) s" by simp
  then show ?thesis by (simp add: slice_def)
qed

lemma two_char_extent:
  assumes "lexer_ok L" and "peek L = CHR ''=''" and "two_char L k = Returns (t, L')"
  shows "curPos L \<le> curPos L' \<and> token_within t (source L) (curPos L) (Suc (curPos L'))"
proof -
  from assms(2) have in_buf: "Suc (curPos L) < length (source L)"
    by (auto simp: peek_def split: if_splits)
  with assms(1) have c: "curChar L = source L ! curPos L"
    "curChar (nextChar L) = source L ! Suc (curPos L)"
    by (simp_all add: lexer_ok_def nextChar_def Let_def)
  from assms(3) have t: "t = Token [curChar L, curChar (nextChar L)] k" and L': "L' = nextChar L"
    by (auto simp: two_char_def Let_def)
  have "tokenText t = slice (source L) (curPos L) (Suc (Suc (curPos L)))"
    unfolding t using c slice_two [OF in_buf] by simp
  then have "token_within t (source L) (curPos L) (Suc (curPos L'))"
    using in_buf unfolding L' by (intro token_withinI [of _ "curPos L" "Suc (Suc (curPos L))"]) simp_all
  then show ?thesis unfolding L' by simp
qed

lemma scan_string_extent:
  assumes "lexer_ok L" and "curChar L = DQUOTE" and "scan_string L = Returns (t, L')"
  shows "curPos L \<le> curPos L' \<and> token_within t (source L) (curPos L) (Suc (curPos L'))"
proof -
  from assms(3) have s: "string_loop (nextChar L) = Some (Inr L')"
    and t: "t = Token (slice (source L') (Suc (curPos L)) (curPos L')) STRING"
    by (auto simp: scan_string_def Let_def split: option.splits sum.splits)
  from curPos_string_loop [OF s] have m: "Suc (curPos L) \<le> curPos L'" by simp
  from scan_string_ok(2) [OF assms(1,2,3)] have ok: "lexer_ok L'" "source L' = source L"
    by simp_all
  from curChar_string_loop [OF s] have "curChar L' \<noteq> NUL" by simp
  with ok(1) have "curPos L' < length (source L')" by (rule lexer_ok_in_buffer)
  with m ok(2) have "token_within t (source L) (curPos L) (Suc (curPos L'))"
    unfolding t by (intro token_withinI [of _ "Suc (curPos L)" "curPos L'"]) simp_all
  with m show ?thesis by simp
qed

lemma scan_number_extent:
  assumes "lexer_ok L" and "isdigit (curChar L)" and "scan_number L = Returns (t, L')"
  shows "curPos L \<le> curPos L' \<and> token_within t (source L) (curPos L) (Suc (curPos L'))"
proof -
  from assms(3) have t: "t = Token (slice (source L') (curPos L) (Suc (curPos L'))) NUMBER"
    and L': "L' = digits_loop L \<or> L' = digits_loop (nextChar (digits_loop L))"
    by (auto simp: scan_number_def Let_def split: if_splits)
  from scan_number_ok(2) [OF assms(1,3)] have ok: "lexer_ok L'" "source L' = source L"
    by simp_all
  from scan_token_chars_left [of L t L'] assms(2,3) have "curChar L' \<noteq> NUL"
    by (simp add: scan_token_digit t)
  with ok(1) have in_buf: "curPos L' < length (source L')" by (rule lexer_ok_in_buffer)
  have m: "curPos L \<le> curPos L'"
    using L' curPos_digits_loop [of L] curPos_digits_loop [of "nextChar (digits_loop L)"]
    by auto
  with in_buf ok(2) have "token_within t (source L) (curPos L) (Suc (curPos L'))"
    unfolding t by (intro token_withinI [of _ "curPos L" "Suc (curPos L')"]) simp_all
  with m show ?thesis by simp
qed

lemma scan_word_extent:
  assumes "lexer_ok L" and "isalpha (curChar L)" and "scan_word L = Returns (t, L')"
  shows "curPos L \<le> curPos L' \<and> token_within t (source L) (curPos L) (Suc (curPos L'))"
proof -
  from assms(3) have t: "tokenText t = slice (source L') (curPos L) (Suc (curPos L'))"
    and L': "L' = alnum_loop L"
    by (auto simp: scan_word_def Let_def split: option.splits)
  from scan_word_ok(2) [OF assms(1,3)] have ok: "lexer_ok L'" "source L' = source L"
    by simp_all
  from assms(2) have "curChar L \<noteq> NUL" by (rule isalpha_not_NUL)
  then have "curChar L' \<noteq> NUL" unfolding L' by (rule curChar_alnum_loop)
  with ok(1) have in_buf: "curPos L' < length (source L')" by (rule lexer_ok_in_buffer)
  have m: "curPos L \<le> curPos L'" unfolding L' by (rule curPos_alnum_loop)
  with in_buf ok(2) t have "token_within t (source L) (curPos L) (Suc (curPos L'))"
    by (intro token_withinI [of _ "curPos L" "Suc (curPos L')"]) simp_all
  with m show ?thesis by simp
qed

lemma scan_token_cases_peek:
  assumes "scan_token L = r"
  obtains (two) k where "peek L = CHR ''=''" "r = two_char L k"
    | (str) "curChar L = DQUOTE" "r = scan_string L"
    | (num) "isdigit (curChar L)" "r = scan_number L"
    | (wrd) "isalpha (curChar L)" "r = scan_word L"
    | (one) k where "r = Returns (Token [curChar L] k, L)"
    | (abort) m where "r = Aborts (LexerAbort m)"
  using assms unfolding scan_token_def Let_def
  by (auto split: if_splits)

lemma scan_token_extent:
  assumes "lexer_ok L" and "scan_token L = Returns (t, L')" and "tokenKind t \<noteq> EOF"
  shows "curPos L \<le> curPos L' \<and> token_within t (source L) (curPos L) (Suc (curPos L'))"
  using assms(2)
proof (cases rule: scan_token_cases_peek)
  case (two k)
  from two_char_extent [OF assms(1) two(1) two(2) [symmetric]] show ?thesis .
next
  case str
  from scan_string_extent [OF assms(1) str(1) str(2) [symmetric]] show ?thesis .
next
  case num
  from scan_number_extent [OF assms(1) num(1) num(2) [symmetric]] show ?thesis .
next
  case wrd
  from scan_word_extent [OF assms(1) wrd(1) wrd(2) [symmetric]] show ?thesis .
next
  case (one k)
  then have t: "t = Token [curChar L] k" and L': "L' = L" by simp_all
  have "curChar L \<noteq> NUL"
  proof
    assume "curChar L = NUL"
    from scan_token_NUL [OF this] assms(2,3) show False by simp
  qed
  with assms(1) have in_buf: "curPos L < length (source L)" by (rule lexer_ok_in_buffer)
  with assms(1) have "curChar L = source L ! curPos L" by (simp add: lexer_ok_def)
  with slice_one [OF in_buf] have "tokenText t = slice (source L) (curPos L) (Suc (curPos L))"
    unfolding t by simp
  with in_buf have "token_within t (source L) (curPos L) (Suc (curPos L'))"
    unfolding L' by (intro token_withinI [of _ "curPos L" "Suc (curPos L)"]) simp_all
  then show ?thesis unfolding L' by simp
next
  case (abort m)
  then show ?thesis by simp
qed

text \<open>Each call of \<open>getToken\<close> moves the cursor forward, and the text of the token it
  returns, unless it is the \<open>EOF\<close> token, is a piece of the buffer between the position
  of the cursor before the call and its position after the call.\<close>

lemma getToken_extent:
  assumes "lexer_ok L" and "getToken L = Returns (t, L')"
  shows "curPos L < curPos L'"
    and "tokenKind t \<noteq> EOF \<Longrightarrow> token_within t (source L) (curPos L) (curPos L')"
    and "tokenKind t = EOF \<Longrightarrow> t = Token [NUL] EOF"
proof -
  from skipWhitespace_ok [OF assms(1)] have w: "lexer_ok (skipWhitespace L)"
    "source (skipWhitespace L) = source L" by auto
  from skipComment_ok [OF w(1)] obtain L1 where
    c: "skipComment (skipWhitespace L) = Some L1" "lexer_ok L1" "source L1 = source L"
    using w(2) by auto
  from assms(2) c(1) obtain L2 where
    s: "scan_token L1 = Returns (t, L2)" and L': "L' = nextChar L2"
    by (auto simp: getToken_def rbind_Returns_iff)
  have "curPos (skipWhitespace L) \<le> curPos L1"
    using c(1) by (auto simp: skipComment_def curPos_skipComment_loop split: if_splits)
  with curPos_skipWhitespace [of L] have m1: "curPos L \<le> curPos L1" by simp
  have m2: "curPos L1 \<le> curPos L2"
  proof (cases "tokenKind t = EOF")
    case True
    from scan_token_EOF [OF s True] show ?thesis by simp
  next
    case False
    from scan_token_extent [OF c(2) s False] show ?thesis by simp
  qed
  from m1 m2 show "curPos L < curPos L'" unfolding L' by simp
  show "token_within t (source L) (curPos L) (curPos L')" if "tokenKind t \<noteq> EOF"
  proof -
    from scan_token_extent [OF c(2) s that]
    have "token_within t (source L) (curPos L1) (curPos L')"
      unfolding L' c(3) by simp
    then obtain i j where ij: "curPos L1 \<le> i" "i \<le> j" "j \<le> curPos L'"
      "j \<le> length (source L)" "tokenText t = slice (source L) i j"
      unfolding token_within_def by auto
    from ij(1) m1 have "curPos L \<le> i" by simp
    from token_withinI [OF this ij(2-5)] show ?thesis .
  qed
  show "t = Token [NUL] EOF" if "tokenKind t = EOF"
  proof -
    from scan_token_EOF [OF s that] have "curChar L1 = NUL" by simp
    from scan_token_NUL [OF this] s show ?thesis by simp
  qed
qed

text \<open>In a buffer without the character \<open>NUL\<close>, a call of \<open>getToken\<close> returns the \<open>EOF\<close>
  token exactly when the cursor has left the buffer.\<close>

lemma getToken_EOF_iff:
  assumes "lexer_ok L" and "NUL \<notin> set (source L)" and "getToken L = Returns (t, L')"
  shows "tokenKind t = EOF \<longleftrightarrow> length (source L) \<le> curPos L"
proof
  assume eof: "tokenKind t = EOF"
  show "length (source L) \<le> curPos L"
  proof (rule ccontr)
    assume "\<not> length (source L) \<le> curPos L"
    then have in_buf: "curPos L < length (source L)" by simp
    from skipWhitespace_ok [OF assms(1)] have w: "lexer_ok (skipWhitespace L)"
      "source (skipWhitespace L) = source L" by auto
    from skipWhitespace_in_buffer [OF assms(1) in_buf]
    have wb: "curPos (skipWhitespace L) < length (source (skipWhitespace L))"
      unfolding w(2) .
    from skipComment_ok [OF w(1)] obtain L1 where
      c: "skipComment (skipWhitespace L) = Some L1" "lexer_ok L1" "source L1 = source L"
      using w(2) by auto
    have b1: "curPos L1 < length (source L1)"
    proof (cases "curChar (skipWhitespace L) = CHR ''#''")
      case True
      from skipComment_loop_ok [OF w(1) wb] True c(1) have "curChar L1 = LF"
        by (auto simp: skipComment_def)
      with c(2) show ?thesis by (intro lexer_ok_in_buffer) auto
    next
      case False
      with c(1) wb show ?thesis by (simp add: skipComment_def)
    qed
    from assms(3) c(1) obtain L2 where s: "scan_token L1 = Returns (t, L2)"
      by (auto simp: getToken_def rbind_Returns_iff)
    from scan_token_EOF [OF s eof] have "curChar L1 = NUL" by simp
    with c(2) b1 have "source L1 ! curPos L1 = NUL" by (simp add: lexer_ok_def)
    with b1 have "NUL \<in> set (source L1)" by (metis nth_mem)
    with assms(2) c(3) show False by simp
  qed
next
  assume "length (source L) \<le> curPos L"
  with assms(1) have "at_end L" by (simp add: at_end_def lexer_ok_def)
  from getToken_at_end(1) [OF this] assms(3) show "tokenKind t = EOF" by simp
qed

text \<open>The tokens up to the first \<open>EOF\<close> token are the tokens of that many calls of
  \<open>getToken\<close>.\<close>

lemma tokens_from_getTokens:
  "tokens_from L = Returns us \<Longrightarrow> \<exists>L'. getTokens (length us) L = Returns (us, L')"
proof (induction L arbitrary: us rule: tokens_from.induct)
  case (1 L)
  from 1(2) obtain t L' where g: "getToken L = Returns (t, L')"
    and r: "(if tokenKind t = EOF then Returns [t]
             else rbind (tokens_from L') (\<lambda>ts. Returns (t # ts))) = Returns us"
    by (subst (asm) tokens_from.simps) (auto simp: rbind_Returns_iff)
  show ?case
  proof (cases "tokenKind t = EOF")
    case True
    with r g show ?thesis by auto
  next
    case False
    with r obtain ts' where a: "tokens_from L' = Returns ts'" and us: "us = t # ts'"
      by (auto simp: rbind_Returns_iff)
    from 1(1) [OF g refl False a] obtain L'' where
      "getTokens (length ts') L' = Returns (ts', L'')" by blast
    with g us show ?thesis by simp
  qed
qed

text \<open>
  C6 (as stated, refuted). A source text with the character \<open>NUL\<close> in it: the first
  call of \<open>getToken\<close> returns the \<open>EOF\<close> token, and the second call returns the
  identifier \<open>A\<close>.
\<close>

theorem C6_EOF_not_absorbing:
  "getTokens 2 (Lexer [NUL, CHR ''A'']) =
     Returns ([Token [NUL] EOF, Token ''A'' IDENT],
              \<lparr>source = [NUL, CHR ''A'', LF], curChar = LF, curPos = 2\<rparr>)"
  by code_simp

text \<open>
  C6 (amended). Let \<open>L\<close> be a state reached from \<open>Lexer src\<close> by calls of \<open>getToken\<close>.
  \<^item> A call of \<open>getToken\<close> in \<open>L\<close> returns one token or aborts.
  \<^item> Tokens come in source order: a call that returns moves the cursor forward and
    leaves the buffer as it is, and the text of the token, unless it is the \<open>EOF\<close>
    token, is a piece of the buffer between the position of the cursor before the call
    and its position after the call, which is where the next call starts. The \<open>EOF\<close>
    token has the end-of-file marker as its text.
  \<^item> The sequence ends with \<open>EOF\<close>: reading tokens from \<open>L\<close> up to the first \<open>EOF\<close>
    token stops, with an abort or with a sequence of tokens whose last token, and no
    other, is \<open>EOF\<close>; these are the tokens of that many calls of \<open>getToken\<close>.
  \<^item> For a source text without the character \<open>NUL\<close>, the \<open>EOF\<close> token is produced at
    the end of the buffer only: a call returns \<open>EOF\<close> exactly when the cursor has left
    the buffer; and in every state that has already produced the \<open>EOF\<close> token, each
    further call returns the \<open>EOF\<close> token again.
\<close>

theorem C6_tokens_in_source_order:
  assumes "getTokens n (Lexer src) = Returns (ts, L)"
  shows "getToken L \<noteq> Diverges
    \<and> (\<forall>t L'. getToken L = Returns (t, L') \<longrightarrow>
          source L' = src @ [LF] \<and> curPos L < curPos L'
          \<and> (tokenKind t \<noteq> EOF \<longrightarrow> token_within t (src @ [LF]) (curPos L) (curPos L'))
          \<and> (tokenKind t = EOF \<longrightarrow> t = Token [NUL] EOF))
    \<and> tokens_from L \<noteq> Diverges
    \<and> (\<forall>us. tokens_from L = Returns us \<longrightarrow>
          us \<noteq> [] \<and> tokenKind (last us) = EOF
          \<and> (\<forall>t\<in>set (butlast us). tokenKind t \<noteq> EOF)
          \<and> (\<exists>L'. getTokens (length us) L = Returns (us, L')))
    \<and> (NUL \<notin> set src \<longrightarrow>
          (\<forall>t L'. getToken L = Returns (t, L') \<longrightarrow>
             (tokenKind t = EOF \<longleftrightarrow> length (src @ [LF]) \<le> curPos L))
          \<and> ((\<exists>t\<in>set ts. tokenKind t = EOF) \<longrightarrow>
               (\<forall>m. \<exists>L'. getTokens m L = Returns (replicate m (Token [NUL] EOF), L'))))"
proof -
  from getTokens_Lexer_ok [OF assms] have ok: "lexer_ok L" and src: "source L = src @ [LF]"
    by simp_all
  have 1: "getToken L \<noteq> Diverges" by (rule getToken_ok(1) [OF ok])
  have 2: "\<forall>t L'. getToken L = Returns (t, L') \<longrightarrow>
          source L' = src @ [LF] \<and> curPos L < curPos L'
          \<and> (tokenKind t \<noteq> EOF \<longrightarrow> token_within t (src @ [LF]) (curPos L) (curPos L'))
          \<and> (tokenKind t = EOF \<longrightarrow> t = Token [NUL] EOF)"
  proof (intro allI impI)
    fix t L'
    assume g: "getToken L = Returns (t, L')"
    from getToken_ok(2) [OF ok g] getToken_extent [OF ok g] src
    show "source L' = src @ [LF] \<and> curPos L < curPos L'
          \<and> (tokenKind t \<noteq> EOF \<longrightarrow> token_within t (src @ [LF]) (curPos L) (curPos L'))
          \<and> (tokenKind t = EOF \<longrightarrow> t = Token [NUL] EOF)"
      by simp
  qed
  have 3: "tokens_from L \<noteq> Diverges" by (rule tokens_from_ok [OF ok])
  have 4: "\<forall>us. tokens_from L = Returns us \<longrightarrow>
          us \<noteq> [] \<and> tokenKind (last us) = EOF
          \<and> (\<forall>t\<in>set (butlast us). tokenKind t \<noteq> EOF)
          \<and> (\<exists>L'. getTokens (length us) L = Returns (us, L'))"
  proof (intro allI impI)
    fix us
    assume u: "tokens_from L = Returns us"
    from tokens_from_shape [OF u] tokens_from_getTokens [OF u]
    show "us \<noteq> [] \<and> tokenKind (last us) = EOF
          \<and> (\<forall>t\<in>set (butlast us). tokenKind t \<noteq> EOF)
          \<and> (\<exists>L'. getTokens (length us) L = Returns (us, L'))"
      by simp
  qed
  have 5: "NUL \<notin> set src \<longrightarrow>
          (\<forall>t L'. getToken L = Returns (t, L') \<longrightarrow>
             (tokenKind t = EOF \<longleftrightarrow> length (src @ [LF]) \<le> curPos L))
          \<and> ((\<exists>t\<in>set ts. tokenKind t = EOF) \<longrightarrow>
               (\<forall>m. \<exists>L'. getTokens m L = Returns (replicate m (Token [NUL] EOF), L')))"
  proof
    assume nul: "NUL \<notin> set src"
    with src have nul': "NUL \<notin> set (source L)" by simp
    have a: "\<forall>t L'. getToken L = Returns (t, L') \<longrightarrow>
             (tokenKind t = EOF \<longleftrightarrow> length (src @ [LF]) \<le> curPos L)"
    proof (intro allI impI)
      fix t L'
      assume g: "getToken L = Returns (t, L')"
      from getToken_EOF_iff [OF ok nul' g] src
      show "tokenKind t = EOF \<longleftrightarrow> length (src @ [LF]) \<le> curPos L" by simp
    qed
    have b: "(\<exists>t\<in>set ts. tokenKind t = EOF) \<longrightarrow>
               (\<forall>m. \<exists>L'. getTokens m L = Returns (replicate m (Token [NUL] EOF), L'))"
    proof (intro allI impI)
      fix m
      assume e: "\<exists>t\<in>set ts. tokenKind t = EOF"
      have "NUL \<notin> set (source (Lexer src))" using nul by (simp add: Lexer_def Let_def)
      from getTokens_EOF_at_end [OF assms lexer_ok_Lexer this e] have "at_end L" .
      from getTokens_at_end [OF this, of m]
      show "\<exists>L'. getTokens m L = Returns (replicate m (Token [NUL] EOF), L')" by blast
    qed
    from a b show "(\<forall>t L'. getToken L = Returns (t, L') \<longrightarrow>
             (tokenKind t = EOF \<longleftrightarrow> length (src @ [LF]) \<le> curPos L))
          \<and> ((\<exists>t\<in>set ts. tokenKind t = EOF) \<longrightarrow>
               (\<forall>m. \<exists>L'. getTokens m L = Returns (replicate m (Token [NUL] EOF), L')))" ..
  qed
  show ?thesis by (rule conjI [OF 1 conjI [OF 2 conjI [OF 3 conjI [OF 4 5]]]])
qed

theorem C6_tokens_in_source_order_witness:
  "getTokens 1 (Lexer ''PRINT 1'') =
     Returns ([Token ''PRINT'' PRINT],
              \<lparr>source = ''PRINT 1'' @ [LF], curChar = CHR '' '', curPos = 5\<rparr>)
   \<and> getToken \<lparr>source = ''PRINT 1'' @ [LF], curChar = CHR '' '', curPos = 5\<rparr> =
       Returns (Token ''1'' NUMBER, \<lparr>source = ''PRINT 1'' @ [LF], curChar = LF, curPos = 7\<rparr>)
   \<and> token_within (Token ''1'' NUMBER) (''PRINT 1'' @ [LF]) 5 7
   \<and> tokens_from \<lparr>source = ''PRINT 1'' @ [LF], curChar = CHR '' '', curPos = 5\<rparr> =
       Returns [Token ''1'' NUMBER, Token [LF] NEWLINE, Token [NUL] EOF]
   \<and> (\<exists>L'. getTokens 3 \<lparr>source = ''PRINT 1'' @ [LF], curChar = CHR '' '', curPos = 5\<rparr> =
       Returns ([Token ''1'' NUMBER, Token [LF] NEWLINE, Token [NUL] EOF], L'))
   \<and> getTokens 4 (Lexer ''PRINT 1'') =
     Returns ([Token ''PRINT'' PRINT, Token ''1'' NUMBER, Token [LF] NEWLINE, Token [NUL] EOF],
              \<lparr>source = ''PRINT 1'' @ [LF], curChar = NUL, curPos = 9\<rparr>)
   \<and> (\<exists>L'. getTokens 5 \<lparr>source = ''PRINT 1'' @ [LF], curChar = NUL, curPos = 9\<rparr>
             = Returns (replicate 5 (Token [NUL] EOF), L'))"
proof -
  let ?L1 = "\<lparr>source = ''PRINT 1'' @ [LF], curChar = CHR '' '', curPos = 5\<rparr>"
  let ?L2 = "\<lparr>source = ''PRINT 1'' @ [LF], curChar = LF, curPos = 7\<rparr>"
  let ?L4 = "\<lparr>source = ''PRINT 1'' @ [LF], curChar = NUL, curPos = 9\<rparr>"
  have a: "getTokens 1 (Lexer ''PRINT 1'') = Returns ([Token ''PRINT'' PRINT], ?L1)"
    by code_simp
  have b: "getToken ?L1 = Returns (Token ''1'' NUMBER, ?L2)"
    by code_simp
  have c: "tokens_from ?L1 = Returns [Token ''1'' NUMBER, Token [LF] NEWLINE, Token [NUL] EOF]"
    by code_simp
  have d: "getTokens 4 (Lexer ''PRINT 1'') =
     Returns ([Token ''PRINT'' PRINT, Token ''1'' NUMBER, Token [LF] NEWLINE, Token [NUL] EOF], ?L4)"
    by code_simp
  have e: "NUL \<notin> set ''PRINT 1''" by simp
  have f: "\<exists>t\<in>set [Token ''PRINT'' PRINT, Token ''1'' NUMBER, Token [LF] NEWLINE, Token [NUL] EOF].
             tokenKind t = EOF" by simp
  note A = C6_tokens_in_source_order [OF a]
  from A have "\<forall>t L'. getToken ?L1 = Returns (t, L') \<longrightarrow>
          source L' = ''PRINT 1'' @ [LF] \<and> curPos ?L1 < curPos L'
          \<and> (tokenKind t \<noteq> EOF \<longrightarrow>
                token_within t (''PRINT 1'' @ [LF]) (curPos ?L1) (curPos L'))
          \<and> (tokenKind t = EOF \<longrightarrow> t = Token [NUL] EOF)"
    by (elim conjE)
  from this [rule_format, OF b]
  have 1: "token_within (Token ''1'' NUMBER) (''PRINT 1'' @ [LF]) 5 7" by simp
  from A have "\<forall>us. tokens_from ?L1 = Returns us \<longrightarrow>
          us \<noteq> [] \<and> tokenKind (last us) = EOF
          \<and> (\<forall>t\<in>set (butlast us). tokenKind t \<noteq> EOF)
          \<and> (\<exists>L'. getTokens (length us) ?L1 = Returns (us, L'))"
    by (elim conjE)
  from this [rule_format, OF c]
  have 2: "\<exists>L'. getTokens 3 ?L1 =
       Returns ([Token ''1'' NUMBER, Token [LF] NEWLINE, Token [NUL] EOF], L')"
    by (simp add: numeral_3_eq_3)
  from C6_tokens_in_source_order [OF d]
  have "NUL \<notin> set ''PRINT 1'' \<longrightarrow>
          (\<forall>t L'. getToken ?L4 = Returns (t, L') \<longrightarrow>
             (tokenKind t = EOF \<longleftrightarrow> length (''PRINT 1'' @ [LF]) \<le> curPos ?L4))
          \<and> ((\<exists>t\<in>set [Token ''PRINT'' PRINT, Token ''1'' NUMBER, Token [LF] NEWLINE,
                        Token [NUL] EOF]. tokenKind t = EOF) \<longrightarrow>
               (\<forall>m. \<exists>L'. getTokens m ?L4 = Returns (replicate m (Token [NUL] EOF), L')))"
    by (elim conjE)
  from this [rule_format, OF e] f
  have 3: "\<exists>L'. getTokens 5 ?L4 = Returns (replicate 5 (Token [NUL] EOF), L')" by blast
  from a b c d 1 2 3 show ?thesis by (intro conjI)
qed

section \<open>Claims about single statements\<close>

text \<open>
  C3. When \<open>statement\<close> starts on a \<open>LABEL\<close> token whose name (the lookahead token) is
  already in \<open>labelsDeclared\<close>, it reads one more token for the lookahead and aborts
  with \<open>Label already exists\<close>: the error is raised in this call of \<open>statement\<close>,
  before the name is matched and before the newline or any further statement is
  parsed, and not by the check at the end of \<open>program\<close>. Only a lexical error in
  reading that one lookahead token can come first; in no case does the statement
  return.
\<close>

theorem C3_duplicate_label_immediate:
  assumes "checkToken LABEL p" and "tokenText (peekToken p) \<in> labelsDeclared p"
  shows "statement p =
           rbind (getToken (lexer p))
             (\<lambda>_. Aborts (ParserAbort (''Label already exists: '' @ tokenText (peekToken p))))"
proof -
  from assms(1) have k: "tokenKind (curToken p) = LABEL" by (simp add: checkToken_def)
  have "statement p = rbind (statement_LABEL p) nl"
    using k by (subst statement.simps) (simp add: checkToken_def)
  also have "\<dots> = rbind (getToken (lexer p))
             (\<lambda>_. Aborts (ParserAbort (''Label already exists: '' @ tokenText (peekToken p))))"
    using assms(2)
    by (cases "getToken (lexer p)")
       (auto simp: statement_LABEL_def nextToken_def abort_def)
  finally show ?thesis .
qed

theorem C3_duplicate_label_immediate_witness:
  "checkToken LABEL
     \<lparr>lexer = \<lparr>source = ''LABEL a'' @ [LF] @ ''LABEL a'' @ [LF] @ ''PRINT 1'' @ [LF],
               curChar = LF, curPos = 15\<rparr>,
      emitter = [EmitLine ''a:''], symbols = {}, labelsDeclared = {''a''}, labelsGotoed = [],
      curToken = Token ''LABEL'' LABEL, peekToken = Token ''a'' IDENT\<rparr>
   \<and> statement
     \<lparr>lexer = \<lparr>source = ''LABEL a'' @ [LF] @ ''LABEL a'' @ [LF] @ ''PRINT 1'' @ [LF],
               curChar = LF, curPos = 15\<rparr>,
      emitter = [EmitLine ''a:''], symbols = {}, labelsDeclared = {''a''}, labelsGotoed = [],
      curToken = Token ''LABEL'' LABEL, peekToken = Token ''a'' IDENT\<rparr>
     = Aborts (ParserAbort ''Label already exists: a'')
   \<and> translate (''LABEL a'' @ [LF] @ ''LABEL a'' @ [LF] @ ''PRINT 1'')
     = Aborts (ParserAbort ''Label already exists: a'')"
proof -
  let ?L = "\<lparr>source = ''LABEL a'' @ [LF] @ ''LABEL a'' @ [LF] @ ''PRINT 1'' @ [LF],
               curChar = LF, curPos = 15\<rparr>"
  let ?p = "\<lparr>lexer = ?L,
      emitter = [EmitLine ''a:''], symbols = {}, labelsDeclared = {''a''}, labelsGotoed = [],
      curToken = Token ''LABEL'' LABEL, peekToken = Token ''a'' IDENT\<rparr>"
  have a: "checkToken LABEL ?p" by (simp add: checkToken_def)
  have b: "tokenText (peekToken ?p) \<in> labelsDeclared ?p" by simp
  have g: "getToken ?L = Returns (Token [LF] NEWLINE,
             \<lparr>source = ''LABEL a'' @ [LF] @ ''LABEL a'' @ [LF] @ ''PRINT 1'' @ [LF],
               curChar = CHR ''P'', curPos = 16\<rparr>)"
    by code_simp
  have "statement ?p = Aborts (ParserAbort ''Label already exists: a'')"
    using C3_duplicate_label_immediate [OF a b] g by simp
  moreover have "translate (''LABEL a'' @ [LF] @ ''LABEL a'' @ [LF] @ ''PRINT 1'')
     = Aborts (ParserAbort ''Label already exists: a'')"
    by code_simp
  ultimately show ?thesis using a by blast
qed

section \<open>The parser and the token sequence of the program\<close>

subsection \<open>Declarations, labels and jumps in a token sequence\<close>

text \<open>
  \<open>pairs K ts\<close> is the set of the names in \<open>ts\<close> that stand right after a token whose
  kind is in \<open>K\<close>: the names declared by \<open>LET\<close> or \<open>INPUT\<close> for
  \<open>K = {LET, INPUT}\<close>, the names of the \<open>LABEL\<close> statements for \<open>K = {LABEL}\<close>, and the
  targets of the \<open>GOTO\<close> statements for \<open>K = {GOTO}\<close>.
\<close>

fun pairs :: "TokenType set \<Rightarrow> token list \<Rightarrow> string set" where
  "pairs K (t1 # t2 # ts) =
     (if tokenKind t1 \<in> K \<and> tokenKind t2 = IDENT then {tokenText t2} else {})
     \<union> pairs K (t2 # ts)"
| "pairs K [t] = {}"
| "pairs K [] = {}"

abbreviation declared_names :: "token list \<Rightarrow> string set" where
  "declared_names \<equiv> pairs {LET, INPUT}"

abbreviation label_names :: "token list \<Rightarrow> string set" where
  "label_names \<equiv> pairs {LABEL}"

abbreviation goto_names :: "token list \<Rightarrow> string set" where
  "goto_names \<equiv> pairs {GOTO}"

text \<open>The kinds of the tokens that are followed by a name which is not a use of a
  variable.\<close>

definition name_keywords :: "TokenType set" where
  "name_keywords = {LABEL, GOTO, LET, INPUT}"

lemma pairs_iff:
  "x \<in> pairs K ts \<longleftrightarrow>
     (\<exists>j. Suc j < length ts \<and> tokenKind (ts ! j) \<in> K \<and> tokenKind (ts ! Suc j) = IDENT
          \<and> tokenText (ts ! Suc j) = x)"
proof (induction K ts rule: pairs.induct)
  case (1 K t1 t2 ts)
  show ?case
  proof
    assume "x \<in> pairs K (t1 # t2 # ts)"
    then consider "tokenKind t1 \<in> K" "tokenKind t2 = IDENT" "x = tokenText t2"
      | "x \<in> pairs K (t2 # ts)"
      by (auto split: if_splits)
    then show "\<exists>j. Suc j < length (t1 # t2 # ts) \<and> tokenKind ((t1 # t2 # ts) ! j) \<in> K
        \<and> tokenKind ((t1 # t2 # ts) ! Suc j) = IDENT \<and> tokenText ((t1 # t2 # ts) ! Suc j) = x"
    proof cases
      case 1
      then show ?thesis by (intro exI [of _ 0]) simp
    next
      case 2
      with 1 obtain j where "Suc j < length (t2 # ts)" "tokenKind ((t2 # ts) ! j) \<in> K"
        "tokenKind ((t2 # ts) ! Suc j) = IDENT" "tokenText ((t2 # ts) ! Suc j) = x"
        by auto
      then show ?thesis by (intro exI [of _ "Suc j"]) simp
    qed
  next
    assume "\<exists>j. Suc j < length (t1 # t2 # ts) \<and> tokenKind ((t1 # t2 # ts) ! j) \<in> K
        \<and> tokenKind ((t1 # t2 # ts) ! Suc j) = IDENT \<and> tokenText ((t1 # t2 # ts) ! Suc j) = x"
    then obtain j where j: "Suc j < length (t1 # t2 # ts)" "tokenKind ((t1 # t2 # ts) ! j) \<in> K"
      "tokenKind ((t1 # t2 # ts) ! Suc j) = IDENT" "tokenText ((t1 # t2 # ts) ! Suc j) = x"
      by auto
    show "x \<in> pairs K (t1 # t2 # ts)"
    proof (cases j)
      case 0
      with j show ?thesis by simp
    next
      case (Suc j')
      with j have "x \<in> pairs K (t2 # ts)" by (subst 1) auto
      then show ?thesis by simp
    qed
  qed
qed simp_all

lemma pairs_append_mono: "pairs K ts \<union> pairs K us \<subseteq> pairs K (ts @ us)"
proof -
  have "x \<in> pairs K (ts @ us)" if "x \<in> pairs K ts" for x
  proof -
    from that obtain j where "Suc j < length ts" "tokenKind (ts ! j) \<in> K"
      "tokenKind (ts ! Suc j) = IDENT" "tokenText (ts ! Suc j) = x"
      by (auto simp: pairs_iff)
    then show ?thesis
      unfolding pairs_iff by (intro exI [of _ j]) (simp add: nth_append)
  qed
  moreover have "x \<in> pairs K (ts @ us)" if "x \<in> pairs K us" for x
  proof -
    from that obtain j where "Suc j < length us" "tokenKind (us ! j) \<in> K"
      "tokenKind (us ! Suc j) = IDENT" "tokenText (us ! Suc j) = x"
      by (auto simp: pairs_iff)
    then show ?thesis
      unfolding pairs_iff by (intro exI [of _ "length ts + j"]) (simp add: nth_append)
  qed
  ultimately show ?thesis by blast
qed

text \<open>A sequence that does not end with a token of \<open>K\<close> can be cut there.\<close>

lemma pairs_append:
  assumes "ts = [] \<or> tokenKind (last ts) \<notin> K"
  shows "pairs K (ts @ us) = pairs K ts \<union> pairs K us"
proof
  show "pairs K ts \<union> pairs K us \<subseteq> pairs K (ts @ us)" by (rule pairs_append_mono)
  show "pairs K (ts @ us) \<subseteq> pairs K ts \<union> pairs K us"
  proof
    fix x assume "x \<in> pairs K (ts @ us)"
    then obtain j where j: "Suc j < length (ts @ us)" "tokenKind ((ts @ us) ! j) \<in> K"
      "tokenKind ((ts @ us) ! Suc j) = IDENT" "tokenText ((ts @ us) ! Suc j) = x"
      by (auto simp: pairs_iff)
    consider "Suc j < length ts" | "Suc j = length ts" | "length ts \<le> j" by linarith
    then show "x \<in> pairs K ts \<union> pairs K us"
    proof cases
      case 1
      with j have "x \<in> pairs K ts"
        unfolding pairs_iff by (intro exI [of _ j]) (simp add: nth_append)
      then show ?thesis by simp
    next
      case 2
      then have ne: "ts \<noteq> []" by auto
      with 2 have "ts ! j = last ts" by (metis diff_Suc_1 last_conv_nth)
      with ne j(2) 2 assms show ?thesis by (simp add: nth_append)
    next
      case 3
      with j have "x \<in> pairs K us"
        unfolding pairs_iff
        by (intro exI [of _ "j - length ts"]) (auto simp: nth_append Suc_diff_le)
      then show ?thesis by simp
    qed
  qed
qed

subsection \<open>The tokens a parser state still has to read\<close>

text \<open>
  \<open>pending p\<close> is the token sequence ahead of the parser, up to and including the first
  \<open>EOF\<close> token: the current token, the lookahead token, and the tokens the lexer will
  produce. \<open>consumes p ts p'\<close> says that the tokens ahead of \<open>p\<close> are \<open>ts\<close> followed by
  the tokens ahead of \<open>p'\<close>, and that no token of \<open>ts\<close> is \<open>EOF\<close>.
\<close>

definition pending :: "parser \<Rightarrow> token list result" where
  "pending p =
     (if tokenKind (curToken p) = EOF then Returns [curToken p]
      else if tokenKind (peekToken p) = EOF then Returns [curToken p, peekToken p]
      else rbind (tokens_from (lexer p)) (\<lambda>ts. Returns (curToken p # peekToken p # ts)))"

definition consumes :: "parser \<Rightarrow> token list \<Rightarrow> parser \<Rightarrow> bool" where
  "consumes p ts p' \<longleftrightarrow>
     pending p = rbind (pending p') (\<lambda>rest. Returns (ts @ rest))
     \<and> (\<forall>t\<in>set ts. tokenKind t \<noteq> EOF)"

lemma rbind_Returns_id [simp]: "rbind m Returns = m"
  by (cases m) auto

lemma rbind_assoc: "rbind (rbind m f) g = rbind m (\<lambda>x. rbind (f x) g)"
  by (cases m) auto

lemma consumes_refl [simp]: "consumes p [] p"
  by (simp add: consumes_def)

lemma consumes_trans:
  "consumes p ts p' \<Longrightarrow> consumes p' us p'' \<Longrightarrow> consumes p (ts @ us) p''"
  by (auto simp: consumes_def rbind_assoc)

lemma pending_cong:
  "curToken p = curToken q \<Longrightarrow> peekToken p = peekToken q \<Longrightarrow> lexer p = lexer q
     \<Longrightarrow> pending p = pending q"
  by (simp add: pending_def)

lemma nextToken_fields:
  assumes "nextToken p = Returns p'"
  shows "curToken p' = peekToken p" and "symbols p' = symbols p"
    and "labelsDeclared p' = labelsDeclared p" and "labelsGotoed p' = labelsGotoed p"
    and "emitter p' = emitter p"
  using assms by (auto simp: nextToken_def rbind_Returns_iff)

lemma nextToken_consumes:
  assumes "nextToken p = Returns p'" and "tokenKind (curToken p) \<noteq> EOF"
  shows "consumes p [curToken p] p'"
proof -
  from assms(1) obtain t L where g: "getToken (lexer p) = Returns (t, L)"
    and p': "p' = p\<lparr>curToken := peekToken p, peekToken := t, lexer := L\<rparr>"
    by (auto simp: nextToken_def rbind_Returns_iff)
  have "pending p = rbind (pending p') (\<lambda>rest. Returns (curToken p # rest))"
  proof (cases "tokenKind (peekToken p) = EOF")
    case True
    with assms(2) show ?thesis by (simp add: pending_def p')
  next
    case False
    have "tokens_from (lexer p) =
            (if tokenKind t = EOF then Returns [t]
             else rbind (tokens_from L) (\<lambda>ts. Returns (t # ts)))"
      using g by (subst tokens_from.simps) simp
    with False assms(2) show ?thesis
      by (simp add: pending_def p' rbind_assoc)
  qed
  with assms(2) show ?thesis by (simp add: consumes_def)
qed

subsection \<open>Steps that declare nothing\<close>

text \<open>
  \<open>plain S ts\<close>: no token of \<open>ts\<close> is \<open>LABEL\<close>, \<open>GOTO\<close>, \<open>LET\<close>, \<open>INPUT\<close> or \<open>EOF\<close>, and
  every identifier in \<open>ts\<close> is in \<open>S\<close>. \<open>passes p p'\<close>: from \<open>p\<close> to \<open>p'\<close> the parser
  has consumed such a sequence, with \<open>S\<close> its set of symbols, and has left its three
  sets as they were.
\<close>

definition plain :: "string set \<Rightarrow> token list \<Rightarrow> bool" where
  "plain S ts \<longleftrightarrow>
     (\<forall>t\<in>set ts. tokenKind t \<notin> name_keywords \<and> tokenKind t \<noteq> EOF
                  \<and> (tokenKind t = IDENT \<longrightarrow> tokenText t \<in> S))"

definition passes :: "parser \<Rightarrow> parser \<Rightarrow> bool" where
  "passes p p' \<longleftrightarrow>
     symbols p' = symbols p \<and> labelsDeclared p' = labelsDeclared p
     \<and> labelsGotoed p' = labelsGotoed p
     \<and> (\<exists>ts. consumes p ts p' \<and> plain (symbols p) ts)"

lemma plain_Nil [simp]: "plain S []"
  by (simp add: plain_def)

lemma plain_append [simp]: "plain S (ts @ us) \<longleftrightarrow> plain S ts \<and> plain S us"
  by (auto simp: plain_def)

lemma passes_refl [simp]: "passes p p"
  by (auto simp: passes_def intro!: exI [of _ "[]"])

lemma passes_trans: "passes p p' \<Longrightarrow> passes p' p'' \<Longrightarrow> passes p p''"
  unfolding passes_def
  by (elim conjE exE, intro conjI, simp, simp, simp)
     (metis consumes_trans plain_append)

lemma consumes_emit [simp]:
  "consumes (emit s p) ts p' = consumes p ts p'"
  "consumes (emitLine s p) ts p' = consumes p ts p'"
  "consumes (headerLine s p) ts p' = consumes p ts p'"
  "consumes p ts (emit s p') = consumes p ts p'"
  "consumes p ts (emitLine s p') = consumes p ts p'"
  "consumes p ts (headerLine s p') = consumes p ts p'"
  by (simp_all add: consumes_def pending_def emit_def emitLine_def headerLine_def)

lemma passes_emit [simp]:
  "passes (emit s p) p' = passes p p'"
  "passes (emitLine s p) p' = passes p p'"
  "passes (headerLine s p) p' = passes p p'"
  "passes p (emit s p') = passes p p'"
  "passes p (emitLine s p') = passes p p'"
  "passes p (headerLine s p') = passes p p'"
  by (simp_all add: passes_def) (simp_all add: emit_def emitLine_def headerLine_def)

lemma nextToken_passes:
  assumes "nextToken p = Returns p'"
    and "tokenKind (curToken p) \<notin> name_keywords" and "tokenKind (curToken p) \<noteq> EOF"
    and "tokenKind (curToken p) = IDENT \<longrightarrow> tokenText (curToken p) \<in> symbols p"
  shows "passes p p'"
  unfolding passes_def
  using nextToken_fields [OF assms(1)] nextToken_consumes [OF assms(1,3)] assms(2-4)
  by (auto simp: plain_def intro!: exI [of _ "[curToken p]"])

lemma match_passes:
  assumes "match k p = Returns p'" and "k \<notin> name_keywords" and "k \<noteq> EOF" and "k \<noteq> IDENT"
  shows "passes p p'"
proof -
  from assms(1) have "nextToken p = Returns p'" "tokenKind (curToken p) = k"
    by (auto simp: match_def checkToken_def abort_def split: if_splits)
  with assms(2-4) show ?thesis by (intro nextToken_passes) auto
qed

lemma primary_passes: "primary p = Returns p' \<Longrightarrow> passes p p'"
proof -
  assume a: "primary p = Returns p'"
  let ?q = "emit (tokenText (curToken p)) p"
  from a have n: "nextToken ?q = Returns p'"
    and k: "tokenKind (curToken p) = NUMBER
            \<or> tokenKind (curToken p) = IDENT \<and> tokenText (curToken p) \<in> symbols p"
    by (auto simp: primary_def checkToken_def abort_def split: if_splits)
  have "passes ?q p'"
    using k by (intro nextToken_passes [OF n]) (auto simp: name_keywords_def emit_def)
  then show ?thesis by simp
qed

lemma operator_passes:
  assumes "nextToken (emit s p) = Returns p'"
    and "tokenKind (curToken p) \<in> {PLUS, MINUS, ASTERISK, SLASH, GT, GTEQ, LT, LTEQ, EQEQ, NOTEQ}"
  shows "passes p p'"
proof -
  have "passes (emit s p) p'"
    using assms(2) by (intro nextToken_passes [OF assms(1)]) (auto simp: name_keywords_def)
  then show ?thesis by simp
qed

lemma unary_passes: "unary p = Returns p' \<Longrightarrow> passes p p'"
proof -
  assume a: "unary p = Returns p'"
  show ?thesis
  proof (cases "checkToken PLUS p \<or> checkToken MINUS p")
    case False
    with a show ?thesis by (simp add: unary_def primary_passes)
  next
    case True
    with a obtain p1 where n: "nextToken (emit (tokenText (curToken p)) p) = Returns p1"
      and b: "primary p1 = Returns p'"
      by (auto simp: unary_def rbind_Returns_iff)
    have "passes p p1" using True by (intro operator_passes [OF n]) (auto simp: checkToken_def)
    with primary_passes [OF b] show ?thesis by (blast intro: passes_trans)
  qed
qed

lemma term_loop_passes: "term_loop p = Returns p' \<Longrightarrow> passes p p'"
proof (induction p rule: term_loop.induct)
  case (1 p)
  show ?case
  proof (cases "checkToken ASTERISK p \<or> checkToken SLASH p")
    case False
    with 1(2) show ?thesis by (subst (asm) term_loop.simps) simp
  next
    case True
    with 1(2) obtain p1 p2 where
      a: "nextToken (emit (tokenText (curToken p)) p) = Returns p1" and
      b: "unary p1 = Returns p2" and c: "term_loop p2 = Returns p'"
      by (subst (asm) term_loop.simps) (auto simp: rbind_Returns_iff)
    have "passes p p1" using a True by (intro operator_passes) (auto simp: checkToken_def)
    moreover have "passes p1 p2" using b by (rule unary_passes)
    moreover have "passes p2 p'" using 1(1) True a b c by blast
    ultimately show ?thesis by (blast intro: passes_trans)
  qed
qed

lemma term_rule_passes: "term_rule p = Returns p' \<Longrightarrow> passes p p'"
  by (auto simp: term_rule_def rbind_Returns_iff
           intro: passes_trans unary_passes term_loop_passes)

lemma expression_loop_passes: "expression_loop p = Returns p' \<Longrightarrow> passes p p'"
proof (induction p rule: expression_loop.induct)
  case (1 p)
  show ?case
  proof (cases "checkToken PLUS p \<or> checkToken MINUS p")
    case False
    with 1(2) show ?thesis by (subst (asm) expression_loop.simps) simp
  next
    case True
    with 1(2) obtain p1 p2 where
      a: "nextToken (emit (tokenText (curToken p)) p) = Returns p1" and
      b: "term_rule p1 = Returns p2" and c: "expression_loop p2 = Returns p'"
      by (subst (asm) expression_loop.simps) (auto simp: rbind_Returns_iff)
    have "passes p p1" using a True by (intro operator_passes) (auto simp: checkToken_def)
    moreover have "passes p1 p2" using b by (rule term_rule_passes)
    moreover have "passes p2 p'" using 1(1) True a b c by blast
    ultimately show ?thesis by (blast intro: passes_trans)
  qed
qed

lemma expression_passes: "expression p = Returns p' \<Longrightarrow> passes p p'"
  by (auto simp: expression_def rbind_Returns_iff
           intro: passes_trans term_rule_passes expression_loop_passes)

lemma comparison_operator_passes:
  "nextToken (emit s p) = Returns p' \<Longrightarrow> isComparisonOperator p \<Longrightarrow> passes p p'"
  by (rule operator_passes) (auto simp: isComparisonOperator_def checkToken_def)

lemma comparison_loop_passes: "comparison_loop p = Returns p' \<Longrightarrow> passes p p'"
proof (induction p rule: comparison_loop.induct)
  case (1 p)
  show ?case
  proof (cases "isComparisonOperator p")
    case False
    with 1(2) show ?thesis by (subst (asm) comparison_loop.simps) simp
  next
    case True
    with 1(2) obtain p1 p2 where
      a: "nextToken (emit (tokenText (curToken p)) p) = Returns p1" and
      b: "expression p1 = Returns p2" and c: "comparison_loop p2 = Returns p'"
      by (subst (asm) comparison_loop.simps) (auto simp: rbind_Returns_iff)
    have "passes p p1" using a True by (rule comparison_operator_passes)
    moreover have "passes p1 p2" using b by (rule expression_passes)
    moreover have "passes p2 p'" using 1(1) True a b c by blast
    ultimately show ?thesis by (blast intro: passes_trans)
  qed
qed

lemma comparison_passes: "comparison p = Returns p' \<Longrightarrow> passes p p'"
proof -
  assume "comparison p = Returns p'"
  then obtain p1 p2 p3 where a: "expression p = Returns p1" and c: "isComparisonOperator p1"
    and n: "nextToken (emit (tokenText (curToken p1)) p1) = Returns p2"
    and b: "expression p2 = Returns p3" and d: "comparison_loop p3 = Returns p'"
    by (auto simp: comparison_def rbind_Returns_iff abort_def split: if_splits)
  from expression_passes [OF a] comparison_operator_passes [OF n c] expression_passes [OF b]
    comparison_loop_passes [OF d]
  show ?thesis by (blast intro: passes_trans)
qed

lemma nl_loop_passes: "nl_loop p = Returns p' \<Longrightarrow> passes p p'"
proof (induction p rule: nl_loop.induct)
  case (1 p)
  show ?case
  proof (cases "checkToken NEWLINE p")
    case False
    with 1(2) show ?thesis by (subst (asm) nl_loop.simps) simp
  next
    case True
    with 1(2) obtain p1 where a: "nextToken p = Returns p1" and c: "nl_loop p1 = Returns p'"
      by (subst (asm) nl_loop.simps) (auto simp: rbind_Returns_iff)
    have "passes p p1"
      using True by (intro nextToken_passes [OF a]) (auto simp: checkToken_def name_keywords_def)
    moreover have "passes p1 p'" using 1(1) True a c by blast
    ultimately show ?thesis by (blast intro: passes_trans)
  qed
qed

lemma nl_passes: "nl p = Returns p' \<Longrightarrow> passes p p'"
proof -
  assume "nl p = Returns p'"
  then obtain p1 where a: "match NEWLINE p = Returns p1" and b: "nl_loop p1 = Returns p'"
    by (auto simp: nl_def rbind_Returns_iff)
  have "passes p p1" by (rule match_passes [OF a]) (simp_all add: name_keywords_def)
  with nl_loop_passes [OF b] show ?thesis by (blast intro: passes_trans)
qed

subsection \<open>Uses of variables in a token sequence\<close>

text \<open>
  \<open>expr_use ts i\<close>: the token at position \<open>i\<close> of \<open>ts\<close> is an identifier inside an
  expression, that is, an identifier that does not stand right after \<open>LABEL\<close>, \<open>GOTO\<close>,
  \<open>LET\<close> or \<open>INPUT\<close>. \<open>defined_before_use S ts\<close>: every such identifier is in \<open>S\<close> or is
  declared in \<open>ts\<close> by a \<open>LET\<close> or \<open>INPUT\<close> whose name token stands before position \<open>i\<close>.
\<close>

definition expr_use :: "token list \<Rightarrow> nat \<Rightarrow> bool" where
  "expr_use ts i \<longleftrightarrow>
     tokenKind (ts ! i) = IDENT \<and> (i = 0 \<or> tokenKind (ts ! (i - 1)) \<notin> name_keywords)"

definition defined_before_use :: "string set \<Rightarrow> token list \<Rightarrow> bool" where
  "defined_before_use S ts \<longleftrightarrow>
     (\<forall>i<length ts. expr_use ts i \<longrightarrow> tokenText (ts ! i) \<in> S \<union> declared_names (take i ts))"

lemma plain_pairs: "plain S ts \<Longrightarrow> K \<subseteq> name_keywords \<Longrightarrow> pairs K ts = {}"
proof (rule ccontr)
  assume a: "plain S ts" "K \<subseteq> name_keywords" and "pairs K ts \<noteq> {}"
  then obtain x where "x \<in> pairs K ts" by auto
  then obtain j where "Suc j < length ts" "tokenKind (ts ! j) \<in> K"
    by (auto simp: pairs_iff)
  with a show False by (auto simp: plain_def dest!: bspec [where x = "ts ! j"])
qed

lemma plain_defined_before_use: "plain S ts \<Longrightarrow> defined_before_use S ts"
  by (auto simp: plain_def defined_before_use_def expr_use_def)

lemma defined_before_use_append:
  assumes "defined_before_use S ts" and "defined_before_use (S \<union> declared_names ts) us"
  shows "defined_before_use S (ts @ us)"
  unfolding defined_before_use_def
proof (intro allI impI)
  fix i assume i: "i < length (ts @ us)" and u: "expr_use (ts @ us) i"
  show "tokenText ((ts @ us) ! i) \<in> S \<union> declared_names (take i (ts @ us))"
  proof (cases "i < length ts")
    case True
    then have "i - 1 < length ts" by simp
    with True have "expr_use ts i" using u by (simp add: expr_use_def nth_append)
    with assms(1) True have "tokenText (ts ! i) \<in> S \<union> declared_names (take i ts)"
      by (simp add: defined_before_use_def)
    with True show ?thesis by (simp add: nth_append)
  next
    case False
    define k where "k = i - length ts"
    have ik: "i = length ts + k" "k < length us" using False i by (auto simp: k_def)
    have "expr_use us k"
      using u unfolding ik expr_use_def
      by (cases k) (auto simp: nth_append)
    with assms(2) ik have "tokenText (us ! k) \<in> S \<union> declared_names ts \<union> declared_names (take k us)"
      by (simp add: defined_before_use_def)
    moreover have "declared_names ts \<union> declared_names (take k us)
                     \<subseteq> declared_names (ts @ take k us)"
      by (rule pairs_append_mono)
    ultimately show ?thesis unfolding ik by (auto simp: nth_append)
  qed
qed

subsection \<open>What a statement does to the three sets\<close>

text \<open>
  \<open>effect p ts p'\<close>: from \<open>p\<close> to \<open>p'\<close> the parser has consumed \<open>ts\<close>; it has added to
  \<open>symbols\<close> the names that \<open>ts\<close> declares, to \<open>labelsDeclared\<close> the labels of \<open>ts\<close> and
  to \<open>labelsGotoed\<close> the jump targets of \<open>ts\<close>, and nothing else; and in \<open>ts\<close> every
  variable is defined before it is used, given the symbols of \<open>p\<close>.
\<close>

definition effect :: "parser \<Rightarrow> token list \<Rightarrow> parser \<Rightarrow> bool" where
  "effect p ts p' \<longleftrightarrow>
     consumes p ts p'
     \<and> symbols p' = symbols p \<union> declared_names ts
     \<and> labelsDeclared p' = labelsDeclared p \<union> label_names ts
     \<and> set (labelsGotoed p') = set (labelsGotoed p) \<union> goto_names ts
     \<and> defined_before_use (symbols p) ts
     \<and> (ts = [] \<or> tokenKind (last ts) \<notin> name_keywords)"

lemma plain_last: "plain S ts \<Longrightarrow> ts = [] \<or> tokenKind (last ts) \<notin> name_keywords"
  by (cases "ts = []") (auto simp: plain_def dest!: bspec [where x = "last ts"])

lemma passes_effect: "passes p p' \<Longrightarrow> \<exists>ts. effect p ts p'"
proof -
  assume "passes p p'"
  then obtain ts where a: "symbols p' = symbols p" "labelsDeclared p' = labelsDeclared p"
    "labelsGotoed p' = labelsGotoed p" "consumes p ts p'" "plain (symbols p) ts"
    by (auto simp: passes_def)
  have "pairs K ts = {}" if "K \<subseteq> name_keywords" for K
    using a(5) that by (rule plain_pairs)
  from this [of "{LET, INPUT}"] this [of "{LABEL}"] this [of "{GOTO}"]
  have "effect p ts p'"
    unfolding effect_def
    using a plain_defined_before_use [OF a(5)] plain_last [OF a(5)]
    by (simp add: name_keywords_def)
  then show ?thesis ..
qed

lemma effect_trans:
  assumes "effect p ts p'" and "effect p' us p''"
  shows "effect p (ts @ us) p''"
proof -
  from assms(1) have e: "ts = [] \<or> tokenKind (last ts) \<notin> name_keywords"
    by (simp add: effect_def)
  have cut: "pairs K (ts @ us) = pairs K ts \<union> pairs K us" if "K \<subseteq> name_keywords" for K
    using e that by (intro pairs_append) auto
  have d: "defined_before_use (symbols p) (ts @ us)"
    using assms by (intro defined_before_use_append) (auto simp: effect_def)
  have l: "ts @ us = [] \<or> tokenKind (last (ts @ us)) \<notin> name_keywords"
    using assms by (cases "us = []") (auto simp: effect_def)
  show ?thesis
    unfolding effect_def
    using assms d l cut [of "{LET, INPUT}"] cut [of "{LABEL}"] cut [of "{GOTO}"]
    by (auto simp: effect_def name_keywords_def intro: consumes_trans)
qed

lemma effect_emit [simp]:
  "effect (emit s p) ts p' = effect p ts p'"
  "effect (emitLine s p) ts p' = effect p ts p'"
  "effect p ts (emit s p') = effect p ts p'"
  "effect p ts (emitLine s p') = effect p ts p'"
  by (simp_all add: effect_def) (simp_all add: emit_def emitLine_def)

lemma passes_effect_trans:
  "passes p p' \<Longrightarrow> effect p' us p'' \<Longrightarrow> \<exists>ts. effect p ts p''"
  using passes_effect effect_trans by blast

lemma effect_passes_trans:
  "effect p ts p' \<Longrightarrow> passes p' p'' \<Longrightarrow> \<exists>ts. effect p ts p''"
  using passes_effect effect_trans by blast

text \<open>A statement that starts with \<open>LABEL\<close>, \<open>GOTO\<close>, \<open>LET\<close> or \<open>INPUT\<close>: the keyword, the
  name, and then tokens that declare nothing.\<close>

lemma keyword_name_effect:
  assumes n: "nextToken p = Returns p1"
    and k: "tokenKind (curToken p) \<in> name_keywords"
    and m: "match IDENT q = Returns p2"
    and q: "curToken q = curToken p1" "peekToken q = peekToken p1" "lexer q = lexer p1"
    and s: "symbols q = symbols p \<union>
              (if tokenKind (curToken p) \<in> {LET, INPUT} then {tokenText (curToken p1)} else {})"
    and ld: "labelsDeclared q = labelsDeclared p \<union>
              (if tokenKind (curToken p) = LABEL then {tokenText (curToken p1)} else {})"
    and lg: "set (labelsGotoed q) = set (labelsGotoed p) \<union>
              (if tokenKind (curToken p) = GOTO then {tokenText (curToken p1)} else {})"
    and r: "passes p2 p'"
  shows "\<exists>ts. effect p ts p'"
proof -
  let ?k = "curToken p" and ?x = "curToken p1"
  from m have nq: "nextToken q = Returns p2" and x: "tokenKind ?x = IDENT"
    using q(1) by (auto simp: match_def checkToken_def abort_def split: if_splits)
  have kE: "tokenKind ?k \<noteq> EOF" "tokenKind ?k \<noteq> IDENT"
    using k by (auto simp: name_keywords_def)
  have c1: "consumes p [?k] p1" by (rule nextToken_consumes [OF n kE(1)])
  have "consumes q [curToken q] p2" using x q(1) by (intro nextToken_consumes [OF nq]) simp
  then have c2: "consumes p1 [?x] p2"
    using pending_cong [OF q] by (simp add: consumes_def q(1))
  from consumes_trans [OF c1 c2] have c: "consumes p [?k, ?x] p2" by simp
  have "effect p [?k, ?x] p2"
    unfolding effect_def
    using c nextToken_fields [OF nq] s ld lg x k kE
    by (auto simp: defined_before_use_def expr_use_def less_Suc_eq name_keywords_def)
  then show ?thesis using r by (rule effect_passes_trans)
qed

lemma keyword_passes:
  assumes "nextToken p = Returns p'"
    and "tokenKind (curToken p) \<in> {PRINT, IF, WHILE, STRING}"
  shows "passes p p'"
  using assms(2) by (intro nextToken_passes [OF assms(1)]) (auto simp: name_keywords_def)

lemma statement_PRINT_passes:
  assumes "statement_PRINT p = Returns p'" and "checkToken PRINT p"
  shows "passes p p'"
proof -
  from assms(1) obtain p1 where n: "nextToken p = Returns p1"
    and b: "(if checkToken STRING p1 then
         nextToken (emitLine (''printf('' @ [DQUOTE] @ tokenText (curToken p1)
                              @ [BACKSLASH] @ ''n'' @ [DQUOTE] @ '');'') p1)
       else
         rbind (expression (emit (''printf('' @ [DQUOTE] @ ''%'' @ ''.2f'' @ [BACKSLASH] @ ''n''
                                  @ [DQUOTE] @ '', (float)('') p1))
           (\<lambda>p2. Returns (emitLine ''));'' p2))) = Returns p'"
    by (auto simp: statement_PRINT_def rbind_Returns_iff)
  have 1: "passes p p1"
    using assms(2) by (intro keyword_passes [OF n]) (simp add: checkToken_def)
  have "passes p1 p'"
  proof (cases "checkToken STRING p1")
    case True
    with b have "passes (emitLine (''printf('' @ [DQUOTE] @ tokenText (curToken p1)
                              @ [BACKSLASH] @ ''n'' @ [DQUOTE] @ '');'') p1) p'"
      by (intro keyword_passes) (auto simp: checkToken_def)
    then show ?thesis by simp
  next
    case False
    with b obtain p2 where "expression (emit (''printf('' @ [DQUOTE] @ ''%'' @ ''.2f''
        @ [BACKSLASH] @ ''n'' @ [DQUOTE] @ '', (float)('') p1) = Returns p2"
      and "p' = emitLine ''));'' p2"
      by (auto simp: rbind_Returns_iff)
    with expression_passes show ?thesis by fastforce
  qed
  with 1 show ?thesis by (rule passes_trans)
qed

lemma statement_IF_head_passes:
  assumes "statement_IF_head p = Returns p'" and "checkToken IF p"
  shows "passes p p'"
proof -
  from assms(1) obtain p1 p2 p3 p4 where n: "nextToken p = Returns p1"
    and c: "comparison (emit ''if('' p1) = Returns p2"
    and m: "match THEN p2 = Returns p3" and l: "nl p3 = Returns p4"
    and p': "p' = emitLine ''){'' p4"
    by (auto simp: statement_IF_head_def rbind_Returns_iff)
  have "passes p p1" using assms(2) by (intro keyword_passes [OF n]) (simp add: checkToken_def)
  moreover have "passes p1 p2" using comparison_passes [OF c] by simp
  moreover have "passes p2 p3" by (rule match_passes [OF m]) (simp_all add: name_keywords_def)
  moreover have "passes p3 p'" using nl_passes [OF l] p' by simp
  ultimately show ?thesis by (blast intro: passes_trans)
qed

lemma statement_WHILE_head_passes:
  assumes "statement_WHILE_head p = Returns p'" and "checkToken WHILE p"
  shows "passes p p'"
proof -
  from assms(1) obtain p1 p2 p3 p4 where n: "nextToken p = Returns p1"
    and c: "comparison (emit ''while('' p1) = Returns p2"
    and m: "match REPEAT p2 = Returns p3" and l: "nl p3 = Returns p4"
    and p': "p' = emitLine ''){'' p4"
    by (auto simp: statement_WHILE_head_def rbind_Returns_iff)
  have "passes p p1" using assms(2) by (intro keyword_passes [OF n]) (simp add: checkToken_def)
  moreover have "passes p1 p2" using comparison_passes [OF c] by simp
  moreover have "passes p2 p3" by (rule match_passes [OF m]) (simp_all add: name_keywords_def)
  moreover have "passes p3 p'" using nl_passes [OF l] p' by simp
  ultimately show ?thesis by (blast intro: passes_trans)
qed

lemma statement_LABEL_effect:
  assumes "statement_LABEL p = Returns p'" and "checkToken LABEL p"
  shows "\<exists>ts. effect p ts p'"
proof -
  from assms(1) obtain p1 where n: "nextToken p = Returns p1"
    and m: "match IDENT (emitLine (tokenText (curToken p1) @ '':'')
              (p1\<lparr>labelsDeclared := insert (tokenText (curToken p1)) (labelsDeclared p1)\<rparr>))
            = Returns p'"
    by (auto simp: statement_LABEL_def rbind_Returns_iff Let_def abort_def split: if_splits)
  from assms(2) have k: "tokenKind (curToken p) = LABEL" by (simp add: checkToken_def)
  show ?thesis
    using nextToken_fields [OF n] k
    by (intro keyword_name_effect [OF n _ m]) (auto simp: emitLine_def name_keywords_def)
qed

lemma statement_GOTO_effect:
  assumes "statement_GOTO p = Returns p'" and "checkToken GOTO p"
  shows "\<exists>ts. effect p ts p'"
proof -
  from assms(1) obtain p1 where n: "nextToken p = Returns p1"
    and m: "match IDENT (emitLine (''goto '' @ tokenText (curToken p1) @ '';'')
              (p1\<lparr>labelsGotoed :=
                  (if tokenText (curToken p1) \<in> set (labelsGotoed p1) then labelsGotoed p1
                   else labelsGotoed p1 @ [tokenText (curToken p1)])\<rparr>))
            = Returns p'"
    by (auto simp: statement_GOTO_def rbind_Returns_iff Let_def)
  from assms(2) have k: "tokenKind (curToken p) = GOTO" by (simp add: checkToken_def)
  show ?thesis
    using nextToken_fields [OF n] k
    by (intro keyword_name_effect [OF n _ m]) (auto simp: emitLine_def name_keywords_def)
qed

lemma symbols_declare_symbol:
  "symbols (declare_symbol p) = insert (tokenText (curToken p)) (symbols p)"
  by (auto simp: declare_symbol_def headerLine_def)

lemma fields_declare_symbol [simp]:
  "peekToken (declare_symbol p) = peekToken p" "lexer (declare_symbol p) = lexer p"
  "labelsDeclared (declare_symbol p) = labelsDeclared p"
  "labelsGotoed (declare_symbol p) = labelsGotoed p"
  by (simp_all add: declare_symbol_def headerLine_def)

lemma statement_LET_effect:
  assumes "statement_LET p = Returns p'" and "checkToken LET p"
  shows "\<exists>ts. effect p ts p'"
proof -
  from assms(1) obtain p1 p4 p5 p6 where n: "nextToken p = Returns p1"
    and m: "match IDENT (emit (tokenText (curToken (declare_symbol p1)) @ '' = '')
              (declare_symbol p1)) = Returns p4"
    and e: "match EQ p4 = Returns p5" and x: "expression p5 = Returns p6"
    and p': "p' = emitLine '';'' p6"
    by (auto simp: statement_LET_def rbind_Returns_iff Let_def)
  from assms(2) have k: "tokenKind (curToken p) = LET" by (simp add: checkToken_def)
  have "passes p4 p5" by (rule match_passes [OF e]) (simp_all add: name_keywords_def)
  with expression_passes [OF x] have r: "passes p4 p'"
    unfolding p' by (auto intro: passes_trans)
  show ?thesis
    using nextToken_fields [OF n] k
    by (intro keyword_name_effect [OF n _ m _ _ _ _ _ _ r])
       (auto simp: emit_def name_keywords_def symbols_declare_symbol)
qed

lemma statement_INPUT_effect:
  assumes "statement_INPUT p = Returns p'" and "checkToken INPUT p"
  shows "\<exists>ts. effect p ts p'"
proof -
  from assms(1) obtain p1 q where n: "nextToken p = Returns p1"
    and m: "match IDENT q = Returns p'"
    and q: "q = emitLine ''}''
              (emitLine (''*s'' @ [DQUOTE] @ '');'')
              (emit (''scanf('' @ [DQUOTE] @ ''%'')
              (emitLine (tokenText (curToken (declare_symbol p1)) @ '' = 0;'')
              (emitLine (''if(0==scanf('' @ [DQUOTE] @ ''%'' @ ''f'' @ [DQUOTE] @ '', &''
                          @ tokenText (curToken (declare_symbol p1)) @ '')) {'')
                 (declare_symbol p1)))))"
    by (auto simp: statement_INPUT_def rbind_Returns_iff Let_def)
  from assms(2) have k: "tokenKind (curToken p) = INPUT" by (simp add: checkToken_def)
  show ?thesis
    using nextToken_fields [OF n] k
    by (intro keyword_name_effect [OF n _ m])
       (auto simp: q emit_def emitLine_def name_keywords_def symbols_declare_symbol)
qed

text \<open>Every statement, and every run of statements, has such an effect.\<close>

lemma statement_block_effect:
  "statement p = Returns p' \<Longrightarrow> \<exists>ts. effect p ts p'"
  "block k q = Returns q' \<Longrightarrow> \<exists>ts. effect q ts q'"
proof (induction p and k q arbitrary: p' and q' rule: statement_block.induct)
  case (1 p)
  let ?body = "if checkToken PRINT p then statement_PRINT p
        else if checkToken IF p then
          rbind (statement_IF_head p) (\<lambda>p1.
          rbind (block ENDIF p1) (\<lambda>p2.
          rbind (match ENDIF p2) (\<lambda>p3. Returns (emitLine ''}'' p3))))
        else if checkToken WHILE p then
          rbind (statement_WHILE_head p) (\<lambda>p1.
          rbind (block ENDWHILE p1) (\<lambda>p2.
          rbind (match ENDWHILE p2) (\<lambda>p3. Returns (emitLine ''}'' p3))))
        else if checkToken LABEL p then statement_LABEL p
        else if checkToken GOTO p then statement_GOTO p
        else if checkToken LET p then statement_LET p
        else if checkToken INPUT p then statement_INPUT p
        else abort (''Invalid Statement at '' @ tokenText (curToken p) @ '' (''
                    @ kind_name (tokenKind (curToken p)) @ '')'')"
  from 1(3) obtain r where body: "?body = Returns r" and nl: "nl r = Returns p'"
    by (subst (asm) statement.simps) (auto simp: rbind_Returns_iff)
  have "\<exists>ts. effect p ts r"
  proof -
    consider (PRINT) "checkToken PRINT p" | (IF) "\<not> checkToken PRINT p" "checkToken IF p"
      | (WHILE) "\<not> checkToken PRINT p" "\<not> checkToken IF p" "checkToken WHILE p"
      | (other) "\<not> checkToken PRINT p" "\<not> checkToken IF p" "\<not> checkToken WHILE p"
      by blast
    then show ?thesis
    proof cases
      case PRINT
      with body have "statement_PRINT p = Returns r" by simp
      from statement_PRINT_passes [OF this PRINT] show ?thesis by (rule passes_effect)
    next
      case IF
      with body obtain p1 p2 p3 where
        a: "statement_IF_head p = Returns p1" and b: "block ENDIF p1 = Returns p2" and
        c: "match ENDIF p2 = Returns p3" and d: "r = emitLine ''}'' p3"
        by (auto simp: rbind_Returns_iff)
      have "passes p p1" using a IF by (intro statement_IF_head_passes)
      then obtain t1 where e1: "effect p t1 p1" using passes_effect by blast
      from 1(1) [OF IF a b] obtain ts where e2: "effect p1 ts p2" by blast
      have "passes p2 p3" by (rule match_passes [OF c]) (simp_all add: name_keywords_def)
      then have "passes p2 r" using d by simp
      from effect_passes_trans [OF effect_trans [OF e1 e2] this] show ?thesis .
    next
      case WHILE
      with body obtain p1 p2 p3 where
        a: "statement_WHILE_head p = Returns p1" and b: "block ENDWHILE p1 = Returns p2" and
        c: "match ENDWHILE p2 = Returns p3" and d: "r = emitLine ''}'' p3"
        by (auto simp: rbind_Returns_iff)
      have "passes p p1" using a WHILE by (intro statement_WHILE_head_passes)
      then obtain t1 where e1: "effect p t1 p1" using passes_effect by blast
      from 1(2) [OF WHILE a b] obtain ts where e2: "effect p1 ts p2" by blast
      have "passes p2 p3" by (rule match_passes [OF c]) (simp_all add: name_keywords_def)
      then have "passes p2 r" using d by simp
      from effect_passes_trans [OF effect_trans [OF e1 e2] this] show ?thesis .
    next
      case other
      with body have b: "(if checkToken LABEL p then statement_LABEL p
        else if checkToken GOTO p then statement_GOTO p
        else if checkToken LET p then statement_LET p
        else if checkToken INPUT p then statement_INPUT p
        else abort (''Invalid Statement at '' @ tokenText (curToken p) @ '' (''
                    @ kind_name (tokenKind (curToken p)) @ '')'')) = Returns r"
        by simp
      consider (LABEL) "checkToken LABEL p" "statement_LABEL p = Returns r"
        | (GOTO) "checkToken GOTO p" "statement_GOTO p = Returns r"
        | (LET) "checkToken LET p" "statement_LET p = Returns r"
        | (INPUT) "checkToken INPUT p" "statement_INPUT p = Returns r"
        using b by (auto simp: abort_def split: if_splits)
      then show ?thesis
      proof cases
        case LABEL
        then show ?thesis by (intro statement_LABEL_effect)
      next
        case GOTO
        then show ?thesis by (intro statement_GOTO_effect)
      next
        case LET
        then show ?thesis by (intro statement_LET_effect)
      next
        case INPUT
        then show ?thesis by (intro statement_INPUT_effect)
      qed
    qed
  qed
  then obtain ts where "effect p ts r" ..
  from effect_passes_trans [OF this nl_passes [OF nl]] show ?case .
next
  case (2 kind p)
  show ?case
  proof (cases "checkToken kind p")
    case True
    with 2(3) have "q' = p" by (subst (asm) block.simps) simp
    then show ?thesis using passes_effect [OF passes_refl] by simp
  next
    case False
    with 2(3) obtain p1 where a: "statement p = Returns p1" and b: "block kind p1 = Returns q'"
      by (subst (asm) block.simps) (auto simp: rbind_Returns_iff)
    from 2(1) [OF False a] obtain ts where e1: "effect p ts p1" by blast
    from 2(2) [OF False a b] obtain us where e2: "effect p1 us q'" by blast
    from effect_trans [OF e1 e2] show ?thesis ..
  qed
qed

subsection \<open>The whole program\<close>

text \<open>The run of \<open>translate\<close> up to the end of the statement loop of \<open>program\<close>: the
  parser state in which the loop has met the \<open>EOF\<close> token.\<close>

definition parse_statements :: "string \<Rightarrow> parser result" where
  "parse_statements src =
     rbind (Parser (Lexer src) []) (\<lambda>p.
       let p1 = headerLine ''#include <stdio.h>'' p;
           p2 = headerLine ''int main(void){'' p1
       in rbind (nl_loop p2) (\<lambda>p3. block EOF p3))"

lemma translate_parse_statements:
  "translate src =
     rbind (parse_statements src) (\<lambda>p4.
     rbind (check_labels (emitLine ''}'' (emitLine ''return 0;'' p4))) (\<lambda>p'.
       Returns (emitter p')))"
  by (cases "Parser (Lexer src) []")
     (simp_all add: translate_def parse_statements_def program_def Let_def rbind_assoc)

lemma block_exit_aux:
  "statement p = Returns p' \<Longrightarrow> True"
  "block k q = Returns q' \<Longrightarrow> checkToken k q'"
proof (induction p and k q arbitrary: p' and q' rule: statement_block.induct)
  case (1 p)
  show ?case ..
next
  case (2 kind p)
  show ?case
  proof (cases "checkToken kind p")
    case True
    with 2(3) show ?thesis by (subst (asm) block.simps) simp
  next
    case False
    with 2(3) obtain p1 where a: "statement p = Returns p1"
      and b: "block kind p1 = Returns q'"
      by (subst (asm) block.simps) (auto simp: rbind_Returns_iff)
    from 2(2) [OF False a b] show ?thesis .
  qed
qed

lemmas block_exit = block_exit_aux(2)

lemma Parser_pending:
  assumes "Parser (Lexer src) em = Returns p"
  shows "pending p = tokens src" and "symbols p = {}" and "labelsDeclared p = {}"
    and "labelsGotoed p = []" and "emitter p = em"
proof -
  from assms obtain t1 L1 t2 L2 where g1: "getToken (Lexer src) = Returns (t1, L1)"
    and g2: "getToken L1 = Returns (t2, L2)"
    and p: "p = \<lparr>lexer = L2, emitter = em, symbols = {}, labelsDeclared = {},
                labelsGotoed = [], curToken = t1, peekToken = t2\<rparr>"
    by (auto simp: Parser_def rbind_Returns_iff)
  have "tokens src = (if tokenKind t1 = EOF then Returns [t1]
          else rbind (tokens_from L1) (\<lambda>ts. Returns (t1 # ts)))"
    unfolding tokens_def using g1 by (subst tokens_from.simps) simp
  moreover have "tokens_from L1 = (if tokenKind t2 = EOF then Returns [t2]
          else rbind (tokens_from L2) (\<lambda>ts. Returns (t2 # ts)))"
    using g2 by (subst tokens_from.simps) simp
  ultimately show "pending p = tokens src"
    by (simp add: pending_def p rbind_assoc)
  show "symbols p = {}" "labelsDeclared p = {}" "labelsGotoed p = []" "emitter p = em"
    by (simp_all add: p)
qed

text \<open>When the statement loop of \<open>program\<close> has met \<open>EOF\<close>, the tokens of the source are
  the tokens \<open>ts\<close> that the parser has consumed and that \<open>EOF\<close> token, and the three sets
  hold what \<open>ts\<close> declares.\<close>

lemma parse_statements_effect:
  assumes "parse_statements src = Returns p"
  shows "\<exists>ts. tokens src = Returns (ts @ [curToken p]) \<and> tokenKind (curToken p) = EOF
           \<and> symbols p = declared_names ts \<and> labelsDeclared p = label_names ts
           \<and> set (labelsGotoed p) = goto_names ts \<and> defined_before_use {} ts
           \<and> (ts = [] \<or> tokenKind (last ts) \<notin> name_keywords)"
proof -
  from assms obtain p0 p3 where a: "Parser (Lexer src) [] = Returns p0"
    and b: "nl_loop (headerLine ''int main(void){'' (headerLine ''#include <stdio.h>'' p0))
              = Returns p3"
    and c: "block EOF p3 = Returns p"
    by (auto simp: parse_statements_def rbind_Returns_iff Let_def)
  note init = Parser_pending [OF a]
  from nl_loop_passes [OF b] have "passes p0 p3" by simp
  then obtain t1 where e1: "effect p0 t1 p3" using passes_effect by blast
  from statement_block_effect(2) [OF c] obtain t2 where e2: "effect p3 t2 p" by blast
  from effect_trans [OF e1 e2] have e: "effect p0 (t1 @ t2) p" .
  from block_exit [OF c] have eof: "tokenKind (curToken p) = EOF" by (simp add: checkToken_def)
  then have "pending p = Returns [curToken p]" by (simp add: pending_def)
  with e init(1) have "tokens src = Returns ((t1 @ t2) @ [curToken p])"
    by (simp add: effect_def consumes_def)
  with e eof init show ?thesis
    by (intro exI [of _ "t1 @ t2"]) (simp add: effect_def)
qed

lemma pairs_snoc:
  assumes "ts = [] \<or> tokenKind (last ts) \<notin> name_keywords" and "K \<subseteq> name_keywords"
  shows "pairs K (ts @ [t]) = pairs K ts"
proof -
  have "pairs K (ts @ [t]) = pairs K ts \<union> pairs K [t]"
    using assms by (intro pairs_append) auto
  then show ?thesis by simp
qed

section \<open>Claims about accepted programs\<close>

text \<open>
  C1 (as stated, refuted). The program \<open>LET x = x\<close> is accepted: the first use of \<open>x\<close>
  in an expression (the fourth token) stands in the same statement as the declaration
  of \<open>x\<close>, since \<open>LET\<close> puts the name into \<open>symbols\<close> before it parses the expression.
\<close>

theorem C1_self_reference_accepted:
  "translate (''LET x = x'' @ [LF]) =
     Returns [HeaderLine ''#include <stdio.h>'', HeaderLine ''int main(void){'',
              HeaderLine ''float x;'', Emit ''x = '', Emit ''x'', EmitLine '';'',
              EmitLine ''return 0;'', EmitLine ''}'']
   \<and> tokens (''LET x = x'' @ [LF]) =
     Returns [Token ''LET'' LET, Token ''x'' IDENT, Token ''='' EQ, Token ''x'' IDENT,
              Token [LF] NEWLINE, Token [LF] NEWLINE, Token [NUL] EOF]"
  by code_simp

text \<open>
  C1 (amended). For every program accepted by \<open>translate\<close>, with \<open>ts\<close> the sequence of
  its tokens up to and including the first \<open>EOF\<close> token, where the program ends: every
  identifier that appears inside an expression (an identifier token
  that does not stand right after \<open>LABEL\<close>, \<open>GOTO\<close>, \<open>LET\<close> or \<open>INPUT\<close>) is preceded in
  \<open>ts\<close> by a \<open>LET\<close> or \<open>INPUT\<close> token that is directly followed by an identifier token of
  that exact name, both strictly earlier in source order. That declaration may be the
  \<open>LET\<close> statement the expression itself belongs to; the target of a \<open>LET\<close> is declared
  by its own statement.
\<close>

theorem C1_defined_before_use:
  assumes "translate src = Returns out"
  shows "\<exists>ts. tokens src = Returns ts \<and>
           (\<forall>i<length ts. expr_use ts i \<longrightarrow>
              (\<exists>j. Suc j < i \<and> tokenKind (ts ! j) \<in> {LET, INPUT}
                   \<and> tokenKind (ts ! Suc j) = IDENT
                   \<and> tokenText (ts ! Suc j) = tokenText (ts ! i)))"
proof -
  from assms obtain p where "parse_statements src = Returns p"
    by (auto simp: translate_parse_statements rbind_Returns_iff)
  from parse_statements_effect [OF this] obtain ts where
    t: "tokens src = Returns (ts @ [curToken p])" and eof: "tokenKind (curToken p) = EOF"
    and d: "defined_before_use {} ts"
    by blast
  have "defined_before_use ({} \<union> declared_names ts) [curToken p]"
    using eof by (simp add: defined_before_use_def expr_use_def)
  with d have D: "defined_before_use {} (ts @ [curToken p])"
    by (rule defined_before_use_append)
  define T where "T = ts @ [curToken p]"
  have "\<exists>j. Suc j < i \<and> tokenKind (T ! j) \<in> {LET, INPUT} \<and> tokenKind (T ! Suc j) = IDENT
            \<and> tokenText (T ! Suc j) = tokenText (T ! i)"
    if i: "i < length T" and u: "expr_use T i" for i
  proof -
    from D i u have "tokenText (T ! i) \<in> declared_names (take i T)"
      unfolding defined_before_use_def T_def by blast
    then obtain j where j: "Suc j < length (take i T)"
      "tokenKind (take i T ! j) \<in> {LET, INPUT}" "tokenKind (take i T ! Suc j) = IDENT"
      "tokenText (take i T ! Suc j) = tokenText (T ! i)"
      unfolding pairs_iff by blast
    from j(1) have lt: "Suc j < i" "j < i" by simp_all
    from j(2-4) show ?thesis
      unfolding nth_take [OF lt(1)] nth_take [OF lt(2)]
      using lt(1) by blast
  qed
  with t show ?thesis unfolding T_def by blast
qed

theorem C1_defined_before_use_witness:
  "translate (''LET x = 1'' @ [LF] @ ''PRINT x'') =
     Returns [HeaderLine ''#include <stdio.h>'', HeaderLine ''int main(void){'',
              HeaderLine ''float x;'', Emit ''x = '', Emit ''1'', EmitLine '';'',
              Emit (''printf('' @ [DQUOTE] @ ''%.2f'' @ [BACKSLASH] @ ''n'' @ [DQUOTE]
                    @ '', (float)(''),
              Emit ''x'', EmitLine ''));'', EmitLine ''return 0;'', EmitLine ''}'']
   \<and> (\<exists>ts. tokens (''LET x = 1'' @ [LF] @ ''PRINT x'') = Returns ts \<and>
           (\<forall>i<length ts. expr_use ts i \<longrightarrow>
              (\<exists>j. Suc j < i \<and> tokenKind (ts ! j) \<in> {LET, INPUT}
                   \<and> tokenKind (ts ! Suc j) = IDENT
                   \<and> tokenText (ts ! Suc j) = tokenText (ts ! i))))"
proof -
  have a: "translate (''LET x = 1'' @ [LF] @ ''PRINT x'') =
     Returns [HeaderLine ''#include <stdio.h>'', HeaderLine ''int main(void){'',
              HeaderLine ''float x;'', Emit ''x = '', Emit ''1'', EmitLine '';'',
              Emit (''printf('' @ [DQUOTE] @ ''%.2f'' @ [BACKSLASH] @ ''n'' @ [DQUOTE]
                    @ '', (float)(''),
              Emit ''x'', EmitLine ''));'', EmitLine ''return 0;'', EmitLine ''}'']"
    by code_simp
  from C1_defined_before_use [OF a] a show ?thesis by blast
qed

section \<open>Runs on well-formed states\<close>

text \<open>
  \<open>dangling_error e\<close>: the abort is the one of the check at the end of \<open>program\<close>.
  \<open>safe_result r\<close>: the outcome \<open>r\<close> of a parser routine is not a divergence, not that
  abort, and if it is a state, then one with a well-formed lexer.
\<close>

definition dangling_error :: "abort \<Rightarrow> bool" where
  "dangling_error e \<longleftrightarrow>
     (\<exists>l. e = ParserAbort (''Attempting to GOTO to an undeclared label: '' @ l))"

fun safe_result :: "parser result \<Rightarrow> bool" where
  "safe_result Diverges = False"
| "safe_result (Aborts e) = (\<not> dangling_error e)"
| "safe_result (Returns p) = lexer_ok (lexer p)"

lemma safe_result_rbind:
  "safe_result r \<Longrightarrow> (\<And>p. r = Returns p \<Longrightarrow> lexer_ok (lexer p) \<Longrightarrow> safe_result (f p))
     \<Longrightarrow> safe_result (rbind r f)"
  by (cases r) auto

lemma not_dangling_LexerAbort [simp]: "\<not> dangling_error (LexerAbort m)"
  by (simp add: dangling_error_def)

lemma not_dangling_other [simp]:
  "\<not> dangling_error (ParserAbort (CHR ''E'' # m))"
  "\<not> dangling_error (ParserAbort (CHR ''L'' # m))"
  "\<not> dangling_error (ParserAbort (CHR ''R'' # m))"
  "\<not> dangling_error (ParserAbort (CHR ''U'' # m))"
  "\<not> dangling_error (ParserAbort (CHR ''I'' # m))"
  by (simp_all add: dangling_error_def)

lemma scan_string_abort:
  "lexer_ok L \<Longrightarrow> curChar L = DQUOTE \<Longrightarrow> scan_string L = Aborts e \<Longrightarrow> \<exists>m. e = LexerAbort m"
proof -
  assume ok: "lexer_ok L" and q: "curChar L = DQUOTE" and a: "scan_string L = Aborts e"
  from ok q have "curPos L < length (source L)" by (intro lexer_ok_in_buffer) auto
  with ok q have "Suc (curPos L) < length (source L)" by (intro lexer_ok_not_last) auto
  then have "curPos (nextChar L) < length (source (nextChar L))" by simp
  from string_loop_ok [OF lexer_ok_nextChar [OF ok] this] a show ?thesis
    by (auto simp: scan_string_def Let_def split: sum.splits)
qed

lemma getToken_abort:
  assumes "lexer_ok L" and "getToken L = Aborts e"
  shows "\<exists>m. e = LexerAbort m"
proof -
  from skipWhitespace_ok [OF assms(1)] have w: "lexer_ok (skipWhitespace L)" by simp
  from skipComment_ok [OF w] obtain L1 where
    c: "skipComment (skipWhitespace L) = Some L1" "lexer_ok L1" by auto
  from assms(2) c(1) have s: "scan_token L1 = Aborts e"
    by (cases "scan_token L1") (auto simp: getToken_def)
  then show ?thesis
  proof (cases rule: scan_token_cases)
    case (two k)
    then show ?thesis by (simp add: two_char_def Let_def)
  next
    case str
    with scan_string_abort [OF c(2)] show ?thesis by metis
  next
    case num
    then show ?thesis by (auto simp: scan_number_def Let_def split: if_splits)
  next
    case wrd
    then show ?thesis by (auto simp: scan_word_def Let_def split: option.splits)
  next
    case (one k)
    then show ?thesis by simp
  next
    case (abort m)
    then show ?thesis by simp
  qed
qed

lemma lexer_emit [simp]:
  "lexer (emit s p) = lexer p" "lexer (emitLine s p) = lexer p"
  "lexer (headerLine s p) = lexer p"
  by (simp_all add: emit_def emitLine_def headerLine_def)

lemma nextToken_safe: "lexer_ok (lexer p) \<Longrightarrow> safe_result (nextToken p)"
proof -
  assume ok: "lexer_ok (lexer p)"
  show ?thesis
  proof (cases "getToken (lexer p)")
    case Diverges
    with getToken_ok(1) [OF ok] show ?thesis by simp
  next
    case (Aborts e)
    with getToken_abort [OF ok] show ?thesis by (auto simp: nextToken_def)
  next
    case (Returns x)
    with getToken_ok(2) [OF ok, of "fst x" "snd x"] show ?thesis
      by (cases x) (simp add: nextToken_def)
  qed
qed

lemma match_safe: "lexer_ok (lexer p) \<Longrightarrow> safe_result (match k p)"
  by (simp add: match_def abort_def nextToken_safe)

lemma primary_safe: "lexer_ok (lexer p) \<Longrightarrow> safe_result (primary p)"
  by (simp add: primary_def abort_def nextToken_safe)

lemma unary_safe: "lexer_ok (lexer p) \<Longrightarrow> safe_result (unary p)"
  by (auto simp: unary_def intro!: safe_result_rbind nextToken_safe primary_safe)

lemma term_loop_safe: "lexer_ok (lexer p) \<Longrightarrow> safe_result (term_loop p)"
proof (induction p rule: term_loop.induct)
  case (1 p)
  show ?case
  proof (cases "checkToken ASTERISK p \<or> checkToken SLASH p")
    case False
    with 1(2) show ?thesis by (subst term_loop.simps) simp
  next
    case True
    have "safe_result (rbind (nextToken (emit (tokenText (curToken p)) p)) (\<lambda>p1.
           rbind (unary p1) (\<lambda>p2. term_loop p2)))"
      using 1 True by (intro safe_result_rbind nextToken_safe unary_safe) auto
    with True show ?thesis by (subst term_loop.simps) simp
  qed
qed

lemma term_rule_safe: "lexer_ok (lexer p) \<Longrightarrow> safe_result (term_rule p)"
  by (auto simp: term_rule_def intro!: safe_result_rbind unary_safe term_loop_safe)

lemma expression_loop_safe: "lexer_ok (lexer p) \<Longrightarrow> safe_result (expression_loop p)"
proof (induction p rule: expression_loop.induct)
  case (1 p)
  show ?case
  proof (cases "checkToken PLUS p \<or> checkToken MINUS p")
    case False
    with 1(2) show ?thesis by (subst expression_loop.simps) simp
  next
    case True
    have "safe_result (rbind (nextToken (emit (tokenText (curToken p)) p)) (\<lambda>p1.
           rbind (term_rule p1) (\<lambda>p2. expression_loop p2)))"
      using 1 True by (intro safe_result_rbind nextToken_safe term_rule_safe) auto
    with True show ?thesis by (subst expression_loop.simps) simp
  qed
qed

lemma expression_safe: "lexer_ok (lexer p) \<Longrightarrow> safe_result (expression p)"
  by (auto simp: expression_def intro!: safe_result_rbind term_rule_safe expression_loop_safe)

lemma comparison_loop_safe: "lexer_ok (lexer p) \<Longrightarrow> safe_result (comparison_loop p)"
proof (induction p rule: comparison_loop.induct)
  case (1 p)
  show ?case
  proof (cases "isComparisonOperator p")
    case False
    with 1(2) show ?thesis by (subst comparison_loop.simps) simp
  next
    case True
    have "safe_result (rbind (nextToken (emit (tokenText (curToken p)) p)) (\<lambda>p1.
           rbind (expression p1) (\<lambda>p2. comparison_loop p2)))"
      using 1 True by (intro safe_result_rbind nextToken_safe expression_safe) auto
    with True show ?thesis by (subst comparison_loop.simps) simp
  qed
qed

lemma comparison_safe: "lexer_ok (lexer p) \<Longrightarrow> safe_result (comparison p)"
  unfolding comparison_def
  by (intro safe_result_rbind expression_safe comparison_loop_safe)
     (auto simp: abort_def intro!: safe_result_rbind nextToken_safe expression_safe)

lemma nl_loop_safe: "lexer_ok (lexer p) \<Longrightarrow> safe_result (nl_loop p)"
proof (induction p rule: nl_loop.induct)
  case (1 p)
  show ?case
  proof (cases "checkToken NEWLINE p")
    case False
    with 1(2) show ?thesis by (subst nl_loop.simps) simp
  next
    case True
    have "safe_result (rbind (nextToken p) (\<lambda>p1. nl_loop p1))"
      using 1 True by (intro safe_result_rbind nextToken_safe) auto
    with True show ?thesis by (subst nl_loop.simps) simp
  qed
qed

lemma nl_safe: "lexer_ok (lexer p) \<Longrightarrow> safe_result (nl p)"
  by (auto simp: nl_def intro!: safe_result_rbind match_safe nl_loop_safe)

lemma lexer_declare_symbol [simp]: "lexer (declare_symbol p) = lexer p"
  by (simp add: declare_symbol_def headerLine_def)

lemma statement_PRINT_safe: "lexer_ok (lexer p) \<Longrightarrow> safe_result (statement_PRINT p)"
  unfolding statement_PRINT_def
  by (intro safe_result_rbind nextToken_safe)
     (auto intro!: safe_result_rbind nextToken_safe expression_safe)

lemma statement_IF_head_safe: "lexer_ok (lexer p) \<Longrightarrow> safe_result (statement_IF_head p)"
  unfolding statement_IF_head_def
  by (intro safe_result_rbind nextToken_safe comparison_safe match_safe nl_safe) auto

lemma statement_WHILE_head_safe: "lexer_ok (lexer p) \<Longrightarrow> safe_result (statement_WHILE_head p)"
  unfolding statement_WHILE_head_def
  by (intro safe_result_rbind nextToken_safe comparison_safe match_safe nl_safe) auto

lemma statement_LABEL_safe: "lexer_ok (lexer p) \<Longrightarrow> safe_result (statement_LABEL p)"
  unfolding statement_LABEL_def
  by (intro safe_result_rbind nextToken_safe)
     (auto simp: Let_def abort_def intro!: match_safe)

lemma statement_GOTO_safe: "lexer_ok (lexer p) \<Longrightarrow> safe_result (statement_GOTO p)"
  unfolding statement_GOTO_def
  by (intro safe_result_rbind nextToken_safe)
     (auto simp: Let_def intro!: match_safe)

lemma statement_LET_safe: "lexer_ok (lexer p) \<Longrightarrow> safe_result (statement_LET p)"
  unfolding statement_LET_def Let_def
  by (intro safe_result_rbind nextToken_safe match_safe expression_safe) auto

lemma statement_INPUT_safe: "lexer_ok (lexer p) \<Longrightarrow> safe_result (statement_INPUT p)"
  unfolding statement_INPUT_def Let_def
  by (intro safe_result_rbind nextToken_safe match_safe) auto

lemma statement_block_safe:
  "lexer_ok (lexer p) \<Longrightarrow> safe_result (statement p)"
  "lexer_ok (lexer q) \<Longrightarrow> safe_result (block k q)"
proof (induction p and k q rule: statement_block.induct)
  case (1 p)
  let ?body = "if checkToken PRINT p then statement_PRINT p
        else if checkToken IF p then
          rbind (statement_IF_head p) (\<lambda>p1.
          rbind (block ENDIF p1) (\<lambda>p2.
          rbind (match ENDIF p2) (\<lambda>p3. Returns (emitLine ''}'' p3))))
        else if checkToken WHILE p then
          rbind (statement_WHILE_head p) (\<lambda>p1.
          rbind (block ENDWHILE p1) (\<lambda>p2.
          rbind (match ENDWHILE p2) (\<lambda>p3. Returns (emitLine ''}'' p3))))
        else if checkToken LABEL p then statement_LABEL p
        else if checkToken GOTO p then statement_GOTO p
        else if checkToken LET p then statement_LET p
        else if checkToken INPUT p then statement_INPUT p
        else abort (''Invalid Statement at '' @ tokenText (curToken p) @ '' (''
                    @ kind_name (tokenKind (curToken p)) @ '')'')"
  note ok = 1(3)
  have "safe_result ?body"
  proof -
    consider (PRINT) "checkToken PRINT p" | (IF) "\<not> checkToken PRINT p" "checkToken IF p"
      | (WHILE) "\<not> checkToken PRINT p" "\<not> checkToken IF p" "checkToken WHILE p"
      | (other) "\<not> checkToken PRINT p" "\<not> checkToken IF p" "\<not> checkToken WHILE p"
      by blast
    then show ?thesis
    proof cases
      case PRINT
      then show ?thesis using statement_PRINT_safe [OF ok] by simp
    next
      case IF
      have "safe_result (rbind (statement_IF_head p) (\<lambda>p1.
          rbind (block ENDIF p1) (\<lambda>p2.
          rbind (match ENDIF p2) (\<lambda>p3. Returns (emitLine ''}'' p3)))))"
      proof (intro safe_result_rbind statement_IF_head_safe [OF ok])
        fix p1 :: parser assume "statement_IF_head p = Returns p1" "lexer_ok (lexer p1)"
        then show "safe_result (block ENDIF p1)" using 1(1) IF by blast
      next
        fix p2 :: parser assume "lexer_ok (lexer p2)"
        then show "safe_result (match ENDIF p2)" by (rule match_safe)
      next
        fix p3 :: parser assume "lexer_ok (lexer p3)"
        then show "safe_result (Returns (emitLine ''}'' p3))" by simp
      qed
      with IF show ?thesis by simp
    next
      case WHILE
      have "safe_result (rbind (statement_WHILE_head p) (\<lambda>p1.
          rbind (block ENDWHILE p1) (\<lambda>p2.
          rbind (match ENDWHILE p2) (\<lambda>p3. Returns (emitLine ''}'' p3)))))"
      proof (intro safe_result_rbind statement_WHILE_head_safe [OF ok])
        fix p1 :: parser assume "statement_WHILE_head p = Returns p1" "lexer_ok (lexer p1)"
        then show "safe_result (block ENDWHILE p1)" using 1(2) WHILE by blast
      next
        fix p2 :: parser assume "lexer_ok (lexer p2)"
        then show "safe_result (match ENDWHILE p2)" by (rule match_safe)
      next
        fix p3 :: parser assume "lexer_ok (lexer p3)"
        then show "safe_result (Returns (emitLine ''}'' p3))" by simp
      qed
      with WHILE show ?thesis by simp
    next
      case other
      then show ?thesis
        using statement_LABEL_safe [OF ok] statement_GOTO_safe [OF ok]
          statement_LET_safe [OF ok] statement_INPUT_safe [OF ok]
        by (simp add: abort_def)
    qed
  qed
  then have "safe_result (rbind ?body nl)"
    by (rule safe_result_rbind) (rule nl_safe)
  then show ?case by (subst statement.simps)
next
  case (2 kind p)
  show ?case
  proof (cases "checkToken kind p")
    case True
    with 2(3) show ?thesis by (subst block.simps) simp
  next
    case False
    have "safe_result (rbind (statement p) (\<lambda>p1. block kind p1))"
      using 2 False by (intro safe_result_rbind) auto
    with False show ?thesis by (subst block.simps) simp
  qed
qed

lemma Parser_safe: "safe_result (Parser (Lexer src) em)"
proof -
  note ok = lexer_ok_Lexer [of src]
  show ?thesis
  proof (cases "getToken (Lexer src)")
    case Diverges
    with getToken_ok(1) [OF ok] show ?thesis by simp
  next
    case (Aborts e)
    with getToken_abort [OF ok] show ?thesis by (auto simp: Parser_def)
  next
    case (Returns x)
    obtain t1 L1 where x: "x = (t1, L1)" by (cases x)
    from getToken_ok(2) [OF ok] Returns x have ok1: "lexer_ok L1" by simp
    show ?thesis
    proof (cases "getToken L1")
      case Diverges
      with getToken_ok(1) [OF ok1] show ?thesis by simp
    next
      case (Aborts e)
      with getToken_abort [OF ok1] Returns x show ?thesis by (auto simp: Parser_def)
    next
      case r2: (Returns y)
      with getToken_ok(2) [OF ok1, of "fst y" "snd y"] Returns x show ?thesis
        by (cases y) (simp add: Parser_def)
    qed
  qed
qed

lemma parse_statements_safe: "safe_result (parse_statements src)"
  unfolding parse_statements_def Let_def
  by (intro safe_result_rbind Parser_safe nl_loop_safe statement_block_safe(2)) auto

lemma find_None_subset: "find (\<lambda>l. l \<notin> D) G = None \<longleftrightarrow> set G \<subseteq> D"
  by (auto simp: find_None_iff)

lemma find_Some_dangling: "find (\<lambda>l. l \<notin> D) G = Some l \<Longrightarrow> l \<in> set G \<and> l \<notin> D"
  by (auto simp: find_Some_iff)

text \<open>The outcome of the final check does not depend on the order in which the names of
  \<open>labelsGotoed\<close> are visited, up to the choice of the name in the message: whatever the
  order, the check passes exactly when every name is declared, and otherwise it aborts
  with the message for one of the undeclared names.\<close>

lemma check_labels_order:
  assumes "set G = set (labelsGotoed p)"
  shows "(check_labels (p\<lparr>labelsGotoed := G\<rparr>) = Returns (p\<lparr>labelsGotoed := G\<rparr>)
            \<and> check_labels p = Returns p \<and> set (labelsGotoed p) \<subseteq> labelsDeclared p)
       \<or> (\<exists>l l'. l \<in> set (labelsGotoed p) - labelsDeclared p
            \<and> l' \<in> set (labelsGotoed p) - labelsDeclared p
            \<and> check_labels (p\<lparr>labelsGotoed := G\<rparr>)
                = Aborts (ParserAbort (''Attempting to GOTO to an undeclared label: '' @ l))
            \<and> check_labels p
                = Aborts (ParserAbort (''Attempting to GOTO to an undeclared label: '' @ l')))"
proof (cases "set (labelsGotoed p) \<subseteq> labelsDeclared p")
  case True
  then have "find (\<lambda>l. l \<notin> labelsDeclared p) (labelsGotoed p) = None"
    and "find (\<lambda>l. l \<notin> labelsDeclared p) G = None"
    unfolding find_None_subset assms by simp_all
  with True show ?thesis by (simp add: check_labels_def)
next
  case False
  then have "find (\<lambda>l. l \<notin> labelsDeclared p) (labelsGotoed p) \<noteq> None"
    and "find (\<lambda>l. l \<notin> labelsDeclared p) G \<noteq> None"
    unfolding find_None_subset assms by simp_all
  then obtain l l' where a: "find (\<lambda>l. l \<notin> labelsDeclared p) G = Some l"
    and b: "find (\<lambda>l. l \<notin> labelsDeclared p) (labelsGotoed p) = Some l'"
    by blast
  from find_Some_dangling [OF a] find_Some_dangling [OF b] assms
  have "l \<in> set (labelsGotoed p) - labelsDeclared p"
    "l' \<in> set (labelsGotoed p) - labelsDeclared p"
    by simp_all
  with a b show ?thesis by (auto simp: check_labels_def abort_def)
qed

text \<open>
  C2 (as stated, refuted). The program \<open>GOTO a\<close>, \<open>PRINT y\<close> contains a \<open>GOTO\<close> whose label
  is never declared. It is rejected, but not with a fatal error naming that label: the
  use of the undeclared variable \<open>y\<close> aborts the run before the statement list has been
  consumed, and the check of the jump targets is never reached.
\<close>

theorem C2_other_error_first:
  "tokens (''GOTO a'' @ [LF] @ ''PRINT y'') =
     Returns [Token ''GOTO'' GOTO, Token ''a'' IDENT, Token [LF] NEWLINE,
              Token ''PRINT'' PRINT, Token ''y'' IDENT, Token [LF] NEWLINE, Token [NUL] EOF]
   \<and> translate (''GOTO a'' @ [LF] @ ''PRINT y'')
       = Aborts (ParserAbort ''Referencing variable before assignment: y'')
   \<and> parse_statements (''GOTO a'' @ [LF] @ ''PRINT y'')
       = Aborts (ParserAbort ''Referencing variable before assignment: y'')"
  by code_simp

text \<open>
  C2 (amended). Let \<open>ts\<close> be the tokens of the source, up to and including the first
  \<open>EOF\<close> token, where the program ends.
  \<^item> If the program is accepted, every jump target (a name after \<open>GOTO\<close>) is the name
    of a \<open>LABEL\<close> statement somewhere in \<open>ts\<close>.
  \<^item> If some jump target is not the name of any \<open>LABEL\<close> statement, the program is
    rejected with a fatal error, in one of two ways. Either the statement loop of
    \<open>program\<close> returns with \<open>EOF\<close> as the current token, and the run then aborts with
    \<open>Attempting to GOTO to an undeclared label: l\<close> for a jump target \<open>l\<close> without a
    \<open>LABEL\<close> (when several targets have none, one of them is named). Or another error
    aborts the run before the statement loop has returned, that is, before the end of the
    statement list, and that error is the one reported.
  \<^item> If the run aborts with \<open>Attempting to GOTO to an undeclared label: l\<close>, then \<open>l\<close>
    is a jump target of the program without a \<open>LABEL\<close>, and the statement loop of
    \<open>program\<close> had returned with \<open>EOF\<close> as the current token: the violation is
    reported after the whole statement list has been consumed, and not by the \<open>GOTO\<close>
    statement or anything else before the end of the input.
\<close>

theorem C2_dangling_goto:
  assumes "tokens src = Returns ts"
  shows "(\<forall>out. translate src = Returns out \<longrightarrow> goto_names ts \<subseteq> label_names ts)
    \<and> (\<not> goto_names ts \<subseteq> label_names ts \<longrightarrow>
         ((\<exists>l p. l \<in> goto_names ts \<and> l \<notin> label_names ts
              \<and> parse_statements src = Returns p \<and> tokenKind (curToken p) = EOF
              \<and> translate src
                  = Aborts (ParserAbort (''Attempting to GOTO to an undeclared label: '' @ l)))
          \<or> (\<exists>e. parse_statements src = Aborts e \<and> translate src = Aborts e
                \<and> \<not> dangling_error e)))
    \<and> (\<forall>l. translate src
              = Aborts (ParserAbort (''Attempting to GOTO to an undeclared label: '' @ l))
          \<longrightarrow> l \<in> goto_names ts \<and> l \<notin> label_names ts
              \<and> (\<exists>p. parse_statements src = Returns p \<and> tokenKind (curToken p) = EOF))"
proof (cases "parse_statements src")
  case Diverges
  with parse_statements_safe [of src] show ?thesis by simp
next
  case (Aborts e)
  with parse_statements_safe [of src] have nd: "\<not> dangling_error e" by simp
  from Aborts have t: "translate src = Aborts e" by (simp add: translate_parse_statements)
  from nd have "e \<noteq> ParserAbort (''Attempting to GOTO to an undeclared label: '' @ l)" for l
    unfolding dangling_error_def by blast
  with t Aborts nd show ?thesis by simp
next
  case (Returns p)
  from parse_statements_effect [OF Returns] assms obtain ts' where
    ts: "ts = ts' @ [curToken p]" and eof: "tokenKind (curToken p) = EOF"
    and D: "labelsDeclared p = label_names ts'" and G: "set (labelsGotoed p) = goto_names ts'"
    and e: "ts' = [] \<or> tokenKind (last ts') \<notin> name_keywords"
    by auto
  have D': "labelsDeclared p = label_names ts" and G': "set (labelsGotoed p) = goto_names ts"
    unfolding ts D G using e by (simp_all add: pairs_snoc name_keywords_def)
  let ?q = "emitLine ''}'' (emitLine ''return 0;'' p)"
  have q: "labelsDeclared ?q = labelsDeclared p" "labelsGotoed ?q = labelsGotoed p"
    by (simp_all add: emitLine_def)
  have t: "translate src = rbind (check_labels ?q) (\<lambda>p'. Returns (emitter p'))"
    using Returns by (simp add: translate_parse_statements)
  show ?thesis
  proof (cases "find (\<lambda>label. label \<notin> labelsDeclared p) (labelsGotoed p)")
    case None
    then have sub: "goto_names ts \<subseteq> label_names ts"
      unfolding find_None_subset G' D' .
    from None have "translate src = Returns (emitter ?q)"
      unfolding t by (simp add: check_labels_def q)
    with sub show ?thesis by simp
  next
    case (Some l)
    from find_Some_dangling [OF Some] have l: "l \<in> goto_names ts" "l \<notin> label_names ts"
      unfolding G' D' by auto
    from Some have a: "translate src
        = Aborts (ParserAbort (''Attempting to GOTO to an undeclared label: '' @ l))"
      unfolding t by (simp add: check_labels_def q abort_def)
    from a l Returns eof show ?thesis by auto
  qed
qed

theorem C2_dangling_goto_witness:
  "tokens (''GOTO a'' @ [LF] @ ''LABEL b'') =
     Returns [Token ''GOTO'' GOTO, Token ''a'' IDENT, Token [LF] NEWLINE,
              Token ''LABEL'' LABEL, Token ''b'' IDENT, Token [LF] NEWLINE, Token [NUL] EOF]
   \<and> \<not> goto_names [Token ''GOTO'' GOTO, Token ''a'' IDENT, Token [LF] NEWLINE,
              Token ''LABEL'' LABEL, Token ''b'' IDENT, Token [LF] NEWLINE, Token [NUL] EOF]
       \<subseteq> label_names [Token ''GOTO'' GOTO, Token ''a'' IDENT, Token [LF] NEWLINE,
              Token ''LABEL'' LABEL, Token ''b'' IDENT, Token [LF] NEWLINE, Token [NUL] EOF]
   \<and> translate (''GOTO a'' @ [LF] @ ''LABEL b'')
       = Aborts (ParserAbort ''Attempting to GOTO to an undeclared label: a'')
   \<and> (\<exists>p. parse_statements (''GOTO a'' @ [LF] @ ''LABEL b'') = Returns p
           \<and> tokenKind (curToken p) = EOF)"
proof -
  let ?src = "''GOTO a'' @ [LF] @ ''LABEL b''"
  let ?ts = "[Token ''GOTO'' GOTO, Token ''a'' IDENT, Token [LF] NEWLINE,
              Token ''LABEL'' LABEL, Token ''b'' IDENT, Token [LF] NEWLINE, Token [NUL] EOF]"
  have a: "tokens ?src = Returns ?ts" by code_simp
  have b: "\<not> goto_names ?ts \<subseteq> label_names ?ts" by simp
  have c: "translate ?src
       = Aborts (ParserAbort (''Attempting to GOTO to an undeclared label: '' @ ''a''))"
    by code_simp
  from C2_dangling_goto [OF a] c
  have "\<exists>p. parse_statements ?src = Returns p \<and> tokenKind (curToken p) = EOF" by blast
  then show ?thesis using a b c by simp
qed

section \<open>Runs on a token sequence with a lexical error\<close>

text \<open>
  \<open>doomed e p\<close>: the lexer of \<open>p\<close> is well-formed, and the tokens ahead of \<open>p\<close> run into
  the abort \<open>e\<close> before any \<open>EOF\<close> token. \<open>fails_with e r\<close>: the outcome \<open>r\<close> of a parser
  routine is not a divergence; if it is an abort, it is \<open>e\<close> or an abort of the parser;
  and if it is a state, that state is doomed in the same way. Every routine of the parser
  takes doomed states to such outcomes: the parser reads the tokens in order, so the
  only lexical error it can meet is the first one.
\<close>

definition doomed :: "abort \<Rightarrow> parser \<Rightarrow> bool" where
  "doomed e p \<longleftrightarrow> lexer_ok (lexer p) \<and> pending p = Aborts e"

fun fails_with :: "abort \<Rightarrow> parser result \<Rightarrow> bool" where
  "fails_with e Diverges = False"
| "fails_with e (Aborts e') = (e' = e \<or> (\<exists>m. e' = ParserAbort m))"
| "fails_with e (Returns p) = doomed e p"


lemma fails_with_abort [simp]: "fails_with e (abort m)"
  by (simp add: abort_def)

lemma doomed_emit [simp]:
  "doomed e (emit s p) = doomed e p" "doomed e (emitLine s p) = doomed e p"
  "doomed e (headerLine s p) = doomed e p"
  by (simp_all add: doomed_def pending_def emit_def emitLine_def headerLine_def)

lemma doomed_update [simp]:
  "doomed e (p\<lparr>symbols := s\<rparr>) = doomed e p"
  "doomed e (p\<lparr>labelsDeclared := ld\<rparr>) = doomed e p"
  "doomed e (p\<lparr>labelsGotoed := lg\<rparr>) = doomed e p"
  by (simp_all add: doomed_def pending_def)

lemma doomed_declare_symbol [simp]: "doomed e (declare_symbol p) = doomed e p"
  by (simp add: declare_symbol_def)

























section \<open>Numbers without a digit after the decimal point\<close>







section \<open>The same text further along in a longer buffer\<close>

text \<open>
  \<open>shifted k L1 L2\<close>: the buffer of \<open>L1\<close> is the buffer of \<open>L2\<close> with \<open>k\<close> characters
  put in front, the cursor of \<open>L1\<close> is \<open>k\<close> positions further on, and both are on the same
  character; \<open>L2\<close> is well-formed. The lexer does the same from both states, up to that
  shift.
\<close>

definition shifted :: "nat \<Rightarrow> lexer \<Rightarrow> lexer \<Rightarrow> bool" where
  "shifted k L1 L2 \<longleftrightarrow>
     lexer_ok L2 \<and> (\<exists>pre. length pre = k \<and> source L1 = pre @ source L2)
     \<and> curPos L1 = k + curPos L2 \<and> curChar L1 = curChar L2"















lemma source_digits_loop [simp]: "source (digits_loop L) = source L"
proof (induction L rule: digits_loop.induct)
  case (1 L)
  then show ?case by (subst digits_loop.simps) simp
qed

lemma source_alnum_loop [simp]: "source (alnum_loop L) = source L"
proof (induction L rule: alnum_loop.induct)
  case (1 L)
  then show ?case by (subst alnum_loop.simps) simp
qed








text \<open>Two parser states that differ by such a shift of their lexers only; the parser does
  the same from both.\<close>

definition pshifted :: "nat \<Rightarrow> parser \<Rightarrow> parser \<Rightarrow> bool" where
  "pshifted k p1 p2 \<longleftrightarrow>
     shifted k (lexer p1) (lexer p2) \<and> emitter p1 = emitter p2 \<and> symbols p1 = symbols p2
     \<and> labelsDeclared p1 = labelsDeclared p2 \<and> labelsGotoed p1 = labelsGotoed p2
     \<and> curToken p1 = curToken p2 \<and> peekToken p1 = peekToken p2"

fun par_related :: "nat \<Rightarrow> parser result \<Rightarrow> parser result \<Rightarrow> bool" where
  "par_related k Diverges Diverges = True"
| "par_related k (Aborts e1) (Aborts e2) = (e1 = e2)"
| "par_related k (Returns p1) (Returns p2) = pshifted k p1 p2"
| "par_related k _ _ = False"


lemma par_related_abort [simp]: "par_related k (abort m) (abort m)"
  by (simp add: abort_def)



lemma pshifted_update:
  assumes "pshifted k p1 p2"
  shows "pshifted k (p1\<lparr>symbols := s\<rparr>) (p2\<lparr>symbols := s\<rparr>)"
    and "pshifted k (p1\<lparr>labelsDeclared := ld\<rparr>) (p2\<lparr>labelsDeclared := ld\<rparr>)"
    and "pshifted k (p1\<lparr>labelsGotoed := lg\<rparr>) (p2\<lparr>labelsGotoed := lg\<rparr>)"
  using assms by (auto simp: pshifted_def)







































section \<open>The lines emitted for INPUT\<close>

text \<open>
  What \<open>INPUT name\<close> adds to the output: on the first occurrence of the name its
  declaration in the preamble, and in the body the read of a number guarded by the test
  of the result of \<open>scanf\<close>, the assignment of zero and a second call of \<open>scanf\<close>.
  (C4 is about what these lines do when the generated program runs. That is the
  behaviour of \<open>scanf\<close> in the C library, of which the sources of the translator hold
  nothing; only the text of the lines is determined here.)
\<close>

definition input_lines :: "string \<Rightarrow> emit_call list" where
  "input_lines name =
     [EmitLine (''if(0==scanf('' @ [DQUOTE] @ ''%f'' @ [DQUOTE] @ '', &'' @ name @ '')) {''),
      EmitLine (name @ '' = 0;''),
      Emit (''scanf('' @ [DQUOTE] @ ''%''),
      EmitLine (''*s'' @ [DQUOTE] @ '');''),
      EmitLine ''}'']"

lemma statement_INPUT_emits:
  assumes "statement_INPUT p = Returns p'"
  shows "emitter p' =
           emitter p
           @ (if tokenText (peekToken p) \<in> symbols p then []
              else [HeaderLine (''float '' @ tokenText (peekToken p) @ '';'')])
           @ input_lines (tokenText (peekToken p))"
proof -
  from assms obtain p1 where n: "nextToken p = Returns p1"
    and m: "match IDENT
        (emitLine ''}''
          (emitLine (''*s'' @ [DQUOTE] @ '');'')
            (emit (''scanf('' @ [DQUOTE] @ ''%'')
              (emitLine (tokenText (curToken (declare_symbol p1)) @ '' = 0;'')
                (emitLine (''if(0==scanf('' @ [DQUOTE] @ ''%'' @ ''f'' @ [DQUOTE] @ '', &''
                            @ tokenText (curToken (declare_symbol p1)) @ '')) {'')
                  (declare_symbol p1)))))) = Returns p'"
    by (auto simp: statement_INPUT_def Let_def rbind_Returns_iff emitLine_def emit_def)
  note f = nextToken_fields [OF n]
  from m have "nextToken
        (emitLine ''}''
          (emitLine (''*s'' @ [DQUOTE] @ '');'')
            (emit (''scanf('' @ [DQUOTE] @ ''%'')
              (emitLine (tokenText (curToken (declare_symbol p1)) @ '' = 0;'')
                (emitLine (''if(0==scanf('' @ [DQUOTE] @ ''%'' @ ''f'' @ [DQUOTE] @ '', &''
                            @ tokenText (curToken (declare_symbol p1)) @ '')) {'')
                  (declare_symbol p1)))))) = Returns p'"
    by (auto simp: match_def abort_def split: if_splits)
  from nextToken_fields(5) [OF this] f show ?thesis
    by (simp add: emitLine_def emit_def declare_symbol_def headerLine_def input_lines_def)
qed

lemma INPUT_then_PRINT_emits:
  "translate (''INPUT x'' @ [LF] @ ''PRINT x'') =
     Returns ([HeaderLine ''#include <stdio.h>'', HeaderLine ''int main(void){'',
               HeaderLine ''float x;'']
              @ input_lines ''x''
              @ [Emit (''printf('' @ [DQUOTE] @ ''%.2f'' @ [BACKSLASH] @ ''n'' @ [DQUOTE]
                       @ '', (float)(''),
                 Emit ''x'', EmitLine ''));'', EmitLine ''return 0;'', EmitLine ''}''])"
  by code_simp

end
